theory Spec2Isabelle
  imports Main "HOL-Library.Sublist" "HOL-Library.Signed_Division"
begin

section \<open>The push protocol\<close>

text \<open>
  The three operators of \<^verbatim>\<open>src/operator\<close> extend the class \<^verbatim>\<open>Subscriber\<close>, whose file
  is not among the sources. Its protocol is taken from the specification (sections 3, 4.2,
  4.7 and 5) and kept apart from the operators, which are translated from their code.
\<close>

datatype ('a, 'e) notification = OnNext 'a | OnError 'e | OnComplete

text \<open>
  Modelled from the spec: the consumer at the end of a chain (the \<^verbatim>\<open>destination\<close> of an
  operator, or the \<^verbatim>\<open>Subject\<close> that is a window). It is a Subscriber of section 4.2: each
  of next, error and complete first checks the terminal-state flag and is dropped when the
  consumer is closed; error and complete close it. \<open>received\<close> lists what it accepted, in
  delivery order.
\<close>

record ('a, 'e) Observer =
  received :: "('a, 'e) notification list"
  stopped :: bool

definition Observer_new :: "('a, 'e) Observer" where
  "Observer_new = \<lparr>received = [], stopped = False\<rparr>"

definition Observer_next :: "'a \<Rightarrow> ('a, 'e) Observer \<Rightarrow> ('a, 'e) Observer" where
  "Observer_next v d = (if stopped d then d else d\<lparr>received := received d @ [OnNext v]\<rparr>)"

definition Observer_error :: "'e \<Rightarrow> ('a, 'e) Observer \<Rightarrow> ('a, 'e) Observer" where
  "Observer_error e d =
     (if stopped d then d else d\<lparr>received := received d @ [OnError e], stopped := True\<rparr>)"

definition Observer_complete :: "('a, 'e) Observer \<Rightarrow> ('a, 'e) Observer" where
  "Observer_complete d =
     (if stopped d then d else d\<lparr>received := received d @ [OnComplete], stopped := True\<rparr>)"

definition Observer_unsubscribe :: "('a, 'e) Observer \<Rightarrow> ('a, 'e) Observer" where
  "Observer_unsubscribe d = d\<lparr>stopped := True\<rparr>"

text \<open>
  Modelled from the spec: the base class \<^verbatim>\<open>Subscriber\<close> that every operator extends. It
  holds the destination it forwards to and its own closed flag. The operators of this
  repository terminate a stream by calling \<^verbatim>\<open>destination.error\<close> or
  \<^verbatim>\<open>destination.complete\<close>; the specification says of that call that "this Subscriber
  close[s]" and that later activity is ignored "because the chain is already closed"
  (section 4.7), and that closing a Subscriber closes the source subscription it tracks
  (section 5). So a Subscriber counts as closed when its own flag is set or the consumer
  it feeds has closed.
\<close>

record ('r, 'e) Subscriber =
  destination :: "('r, 'e) Observer"
  closed :: bool

definition isUnsubscribed :: "('r, 'e, 'z) Subscriber_scheme \<Rightarrow> bool" where
  "isUnsubscribed s = (closed s \<or> stopped (destination s))"

text \<open>
  Modelled from the spec: the public methods of \<^verbatim>\<open>Subscriber\<close> (section 4.2). Each checks
  the terminal state and then runs the hook of the subclass (\<^verbatim>\<open>_next\<close>, \<^verbatim>\<open>_error\<close>,
  \<^verbatim>\<open>_complete\<close>); error and complete close the Subscriber afterwards, with the
  \<^verbatim>\<open>unsubscribe\<close> of the subclass.
\<close>

definition Subscriber_next ::
  "('v \<Rightarrow> ('r, 'e, 'z) Subscriber_scheme \<Rightarrow> ('r, 'e, 'z) Subscriber_scheme) \<Rightarrow>
   'v \<Rightarrow> ('r, 'e, 'z) Subscriber_scheme \<Rightarrow> ('r, 'e, 'z) Subscriber_scheme" where
  "Subscriber_next hook v s = (if isUnsubscribed s then s else hook v s)"

definition Subscriber_error ::
  "('e \<Rightarrow> ('r, 'e, 'z) Subscriber_scheme \<Rightarrow> ('r, 'e, 'z) Subscriber_scheme) \<Rightarrow>
   (('r, 'e, 'z) Subscriber_scheme \<Rightarrow> ('r, 'e, 'z) Subscriber_scheme) \<Rightarrow>
   'e \<Rightarrow> ('r, 'e, 'z) Subscriber_scheme \<Rightarrow> ('r, 'e, 'z) Subscriber_scheme" where
  "Subscriber_error hook unsub e s = (if isUnsubscribed s then s else unsub (hook e s))"

definition Subscriber_complete ::
  "(('r, 'e, 'z) Subscriber_scheme \<Rightarrow> ('r, 'e, 'z) Subscriber_scheme) \<Rightarrow>
   (('r, 'e, 'z) Subscriber_scheme \<Rightarrow> ('r, 'e, 'z) Subscriber_scheme) \<Rightarrow>
   ('r, 'e, 'z) Subscriber_scheme \<Rightarrow> ('r, 'e, 'z) Subscriber_scheme" where
  "Subscriber_complete hook unsub s = (if isUnsubscribed s then s else unsub (hook s))"

text \<open>
  Modelled from the spec: the hooks a subclass inherits when it does not override them
  ("On error: forwards error to the destination", "On complete: forwards complete to the
  destination"), and \<^verbatim>\<open>unsubscribe\<close> for a Subscriber that tracks no child resource.
\<close>

definition Subscriber__error ::
  "'e \<Rightarrow> ('r, 'e, 'z) Subscriber_scheme \<Rightarrow> ('r, 'e, 'z) Subscriber_scheme" where
  "Subscriber__error e s = s\<lparr>destination := Observer_error e (destination s)\<rparr>"

definition Subscriber__complete ::
  "('r, 'e, 'z) Subscriber_scheme \<Rightarrow> ('r, 'e, 'z) Subscriber_scheme" where
  "Subscriber__complete s = s\<lparr>destination := Observer_complete (destination s)\<rparr>"

definition Subscriber_unsubscribe ::
  "('r, 'e, 'z) Subscriber_scheme \<Rightarrow> ('r, 'e, 'z) Subscriber_scheme" where
  "Subscriber_unsubscribe s = s\<lparr>closed := True\<rparr>"

text \<open>The values among a list of notifications, in order.\<close>

fun nexts :: "('a, 'e) notification list \<Rightarrow> 'a list" where
  "nexts [] = []"
| "nexts (OnNext v # ns) = v # nexts ns"
| "nexts (_ # ns) = nexts ns"


section \<open>IsEmpty (\<^verbatim>\<open>src/operator/isEmpty.ts\<close>)\<close>

text \<open>
  \<^verbatim>\<open>IsEmptySubscriber\<close> adds no field to \<^verbatim>\<open>Subscriber\<close>. Its destination receives booleans.
\<close>

type_synonym 'e IsEmptySubscriber = "(bool, 'e) Subscriber"

definition IsEmptySubscriber_new :: "(bool, 'e) Observer \<Rightarrow> 'e IsEmptySubscriber" where
  "IsEmptySubscriber_new d = \<lparr>destination = d, closed = False\<rparr>"

text \<open>\<^verbatim>\<open>notifyComplete(isEmpty)\<close>: \<^verbatim>\<open>destination.next(isEmpty); destination.complete()\<close>.\<close>

definition IsEmpty_notifyComplete :: "bool \<Rightarrow> 'e IsEmptySubscriber \<Rightarrow> 'e IsEmptySubscriber" where
  "IsEmpty_notifyComplete isEmpty s =
     s\<lparr>destination := Observer_complete (Observer_next isEmpty (destination s))\<rparr>"

definition IsEmpty__next :: "'a \<Rightarrow> 'e IsEmptySubscriber \<Rightarrow> 'e IsEmptySubscriber" where
  "IsEmpty__next v s = IsEmpty_notifyComplete False s"

definition IsEmpty__complete :: "'e IsEmptySubscriber \<Rightarrow> 'e IsEmptySubscriber" where
  "IsEmpty__complete s = IsEmpty_notifyComplete True s"

text \<open>
  What the source pushes into the subscriber: the inherited public methods, with the
  hooks above; \<^verbatim>\<open>_error\<close> is not overridden.
\<close>

fun IsEmpty_on :: "('a, 'e) notification \<Rightarrow> 'e IsEmptySubscriber \<Rightarrow> 'e IsEmptySubscriber" where
  "IsEmpty_on (OnNext v) s = Subscriber_next IsEmpty__next v s"
| "IsEmpty_on (OnError e) s = Subscriber_error Subscriber__error Subscriber_unsubscribe e s"
| "IsEmpty_on OnComplete s = Subscriber_complete IsEmpty__complete Subscriber_unsubscribe s"

fun IsEmpty_run :: "'e IsEmptySubscriber \<Rightarrow> ('a, 'e) notification list \<Rightarrow> 'e IsEmptySubscriber" where
  "IsEmpty_run s [] = s"
| "IsEmpty_run s (n # ns) = IsEmpty_run (IsEmpty_on n s) ns"


section \<open>Distinct (\<^verbatim>\<open>src/operator/distinct.ts\<close>)\<close>

text \<open>
  \<^verbatim>\<open>DistinctSubscriber\<close> adds to \<^verbatim>\<open>Subscriber\<close> the memory \<^verbatim>\<open>values\<close> and the comparator.
  A comparator is a JavaScript function: it returns a boolean or throws, so it has a sum
  as result (\<open>Inl\<close> the exception). The subscription to \<^verbatim>\<open>flushes\<close> is a resource of the
  class \<^verbatim>\<open>Subscription\<close>, which is not among the sources; what \<^verbatim>\<open>flushes\<close> delivers is an
  input of the model (\<open>Flushes\<close> below), and a subscriber built without \<^verbatim>\<open>flushes\<close> is
  one that never receives such an input.
\<close>

record ('a, 'e) DistinctSubscriber = "('a, 'e) Subscriber" +
  "values" :: "'a list"
  compare :: "'a \<Rightarrow> 'a \<Rightarrow> 'e + bool"

text \<open>
  The default comparator is \<^verbatim>\<open>x === y\<close>. Strict equality holds between a value and itself
  and between no two different values, with one exception: \<^verbatim>\<open>NaN === NaN\<close> is false.
  \<open>isNaN\<close> tells which values of the element type are \<^verbatim>\<open>NaN\<close> (none of them, for a type
  of integers or of strings).
\<close>

definition strictEquals :: "('a \<Rightarrow> bool) \<Rightarrow> 'a \<Rightarrow> 'a \<Rightarrow> bool" where
  "strictEquals isNaN x y \<longleftrightarrow> x = y \<and> \<not> isNaN x"

text \<open>
  The constructor: the memory is empty; the comparator is the given one when it is a
  function, else the default.
\<close>

definition DistinctSubscriber_new ::
  "('a \<Rightarrow> bool) \<Rightarrow> ('a, 'e) Observer \<Rightarrow> ('a \<Rightarrow> 'a \<Rightarrow> 'e + bool) option \<Rightarrow>
   ('a, 'e) DistinctSubscriber" where
  "DistinctSubscriber_new isNaN d cmp =
     \<lparr>destination = d, closed = False, values = [],
      compare = (case cmp of Some f \<Rightarrow> f | None \<Rightarrow> (\<lambda>x y. Inr (strictEquals isNaN x y)))\<rparr>"

definition Distinct_flush :: "('a, 'e) DistinctSubscriber \<Rightarrow> ('a, 'e) DistinctSubscriber" where
  "Distinct_flush s = s\<lparr>values := []\<rparr>"

text \<open>
  The loop of \<^verbatim>\<open>_next\<close>: scan the memory from index 0; stop with true at the first entry the
  comparator accepts, with the exception at the first call that throws.
\<close>

fun Distinct_found :: "('a \<Rightarrow> 'a \<Rightarrow> 'e + bool) \<Rightarrow> 'a list \<Rightarrow> 'a \<Rightarrow> 'e + bool" where
  "Distinct_found cmp [] v = Inr False"
| "Distinct_found cmp (x # xs) v =
     (case cmp x v of
        Inl err \<Rightarrow> Inl err
      | Inr b \<Rightarrow> if b then Inr True else Distinct_found cmp xs v)"

definition Distinct__next :: "'a \<Rightarrow> ('a, 'e) DistinctSubscriber \<Rightarrow> ('a, 'e) DistinctSubscriber" where
  "Distinct__next v s =
     (case Distinct_found (compare s) (values s) v of
        Inl err \<Rightarrow> s\<lparr>destination := Observer_error err (destination s)\<rparr>
      | Inr found \<Rightarrow>
          if found then s
          else s\<lparr>values := values s @ [v], destination := Observer_next v (destination s)\<rparr>)"

text \<open>
  \<^verbatim>\<open>_complete\<close> and \<^verbatim>\<open>unsubscribe\<close> only call the inherited ones; \<^verbatim>\<open>_error\<close> is not
  overridden.
\<close>

definition Distinct__complete :: "('a, 'e) DistinctSubscriber \<Rightarrow> ('a, 'e) DistinctSubscriber" where
  "Distinct__complete s = Subscriber__complete s"

definition Distinct_unsubscribe :: "('a, 'e) DistinctSubscriber \<Rightarrow> ('a, 'e) DistinctSubscriber" where
  "Distinct_unsubscribe s = Subscriber_unsubscribe s"

definition Distinct_next :: "'a \<Rightarrow> ('a, 'e) DistinctSubscriber \<Rightarrow> ('a, 'e) DistinctSubscriber" where
  "Distinct_next = Subscriber_next Distinct__next"

definition Distinct_error :: "'e \<Rightarrow> ('a, 'e) DistinctSubscriber \<Rightarrow> ('a, 'e) DistinctSubscriber" where
  "Distinct_error = Subscriber_error Subscriber__error Distinct_unsubscribe"

definition Distinct_complete :: "('a, 'e) DistinctSubscriber \<Rightarrow> ('a, 'e) DistinctSubscriber" where
  "Distinct_complete = Subscriber_complete Distinct__complete Distinct_unsubscribe"

text \<open>
  \<^verbatim>\<open>FlushSubscriber\<close> overrides the public methods themselves, so none of them is gated by
  its own state; each acts on the parent, the \<^verbatim>\<open>DistinctSubscriber\<close>.
\<close>

definition FlushSubscriber_next :: "'f \<Rightarrow> ('a, 'e) DistinctSubscriber \<Rightarrow> ('a, 'e) DistinctSubscriber" where
  "FlushSubscriber_next x parent = Distinct_flush parent"

definition FlushSubscriber_complete :: "('a, 'e) DistinctSubscriber \<Rightarrow> ('a, 'e) DistinctSubscriber" where
  "FlushSubscriber_complete parent = parent"

definition FlushSubscriber_error :: "'e \<Rightarrow> ('a, 'e) DistinctSubscriber \<Rightarrow> ('a, 'e) DistinctSubscriber" where
  "FlushSubscriber_error err parent = Distinct_error err parent"

text \<open>One delivery: from the source into the subscriber, or from \<^verbatim>\<open>flushes\<close> into its
  \<^verbatim>\<open>FlushSubscriber\<close>.\<close>

datatype ('a, 'f, 'e) distinct_input =
  Source "('a, 'e) notification" | Flushes "('f, 'e) notification"

fun Distinct_on ::
  "('a, 'f, 'e) distinct_input \<Rightarrow> ('a, 'e) DistinctSubscriber \<Rightarrow> ('a, 'e) DistinctSubscriber" where
  "Distinct_on (Source (OnNext v)) s = Distinct_next v s"
| "Distinct_on (Source (OnError e)) s = Distinct_error e s"
| "Distinct_on (Source OnComplete) s = Distinct_complete s"
| "Distinct_on (Flushes (OnNext x)) s = FlushSubscriber_next x s"
| "Distinct_on (Flushes (OnError e)) s = FlushSubscriber_error e s"
| "Distinct_on (Flushes OnComplete) s = FlushSubscriber_complete s"

fun Distinct_run ::
  "('a, 'e) DistinctSubscriber \<Rightarrow> ('a, 'f, 'e) distinct_input list \<Rightarrow> ('a, 'e) DistinctSubscriber" where
  "Distinct_run s [] = s"
| "Distinct_run s (i # is) = Distinct_run (Distinct_on i s) is"

fun source_values :: "('a, 'f, 'e) distinct_input list \<Rightarrow> 'a list" where
  "source_values [] = []"
| "source_values (Source (OnNext v) # is) = v # source_values is"
| "source_values (_ # is) = source_values is"


section \<open>WindowWhen (\<^verbatim>\<open>src/operator/windowWhen.ts\<close>)\<close>

text \<open>
  \<^verbatim>\<open>WindowSubscriber\<close> creates objects as it runs: a \<^verbatim>\<open>Subject\<close> for each window and, through
  \<^verbatim>\<open>subscribeToResult\<close>, an \<^verbatim>\<open>InnerSubscriber\<close> for each closing notifier. Both live in a
  store indexed by the order of creation, and a reference (\<^verbatim>\<open>this.window\<close>,
  \<^verbatim>\<open>this.closingNotification\<close>, the argument \<^verbatim>\<open>innerSub\<close>) is an index into its store. The
  outer destination receives window references.

  \<^verbatim>\<open>closingSelector\<close> is a JavaScript function without arguments, so its calls may differ:
  \<open>closingSelector s k\<close> is the outcome of the call number \<open>k\<close>. It throws (\<open>Throws err\<close>) or
  returns a notifier (\<open>Returns pushed\<close>). Subscribing an Observable runs its producer, which
  pushes into the subscriber in the same call stack (sections 4.3 and 5): \<open>pushed\<close> lists
  what the notifier pushes while \<^verbatim>\<open>subscribeToResult\<close> subscribes it, before that call
  returns; it is empty for a notifier that only pushes later (a timer). What a notifier
  pushes later is an input of the model.
\<close>

datatype ('x, 'e) selector_result = Throws 'e | Returns "('x, 'e) notification list"

datatype child = InnerChild nat | WindowChild nat

record ('a, 'x, 'e) WindowSubscriber = "(nat, 'e) Subscriber" +
  subjects :: "nat \<Rightarrow> ('a, 'e) Observer"
  nsubjects :: nat
  window :: "nat option"
  innerClosed :: "nat \<Rightarrow> bool"
  ninners :: nat
  closingNotification :: "nat option"
  children :: "child list"
  closingSelector :: "nat \<Rightarrow> ('x, 'e) selector_result"
  selectorCalls :: nat

text \<open>
  Modelled from the spec: a window is a \<^verbatim>\<open>Subject\<close>, a broadcast channel that obeys the
  Subscriber protocol (sections 3 and 4.2); these are its methods, on the store.
\<close>

definition Subject_next :: "'a \<Rightarrow> nat \<Rightarrow> ('a, 'x, 'e) WindowSubscriber \<Rightarrow> ('a, 'x, 'e) WindowSubscriber" where
  "Subject_next v w s = s\<lparr>subjects := (subjects s)(w := Observer_next v (subjects s w))\<rparr>"

definition Subject_error :: "'e \<Rightarrow> nat \<Rightarrow> ('a, 'x, 'e) WindowSubscriber \<Rightarrow> ('a, 'x, 'e) WindowSubscriber" where
  "Subject_error err w s = s\<lparr>subjects := (subjects s)(w := Observer_error err (subjects s w))\<rparr>"

definition Subject_complete :: "nat \<Rightarrow> ('a, 'x, 'e) WindowSubscriber \<Rightarrow> ('a, 'x, 'e) WindowSubscriber" where
  "Subject_complete w s = s\<lparr>subjects := (subjects s)(w := Observer_complete (subjects s w))\<rparr>"

definition Subject_unsubscribe :: "nat \<Rightarrow> ('a, 'x, 'e) WindowSubscriber \<Rightarrow> ('a, 'x, 'e) WindowSubscriber" where
  "Subject_unsubscribe w s = s\<lparr>subjects := (subjects s)(w := Observer_unsubscribe (subjects s w))\<rparr>"

text \<open>
  Modelled from the spec: the \<^verbatim>\<open>unsubscribe\<close> of an \<^verbatim>\<open>InnerSubscriber\<close>, and the child
  resources of \<^verbatim>\<open>Subscription\<close> (section 4.1): \<^verbatim>\<open>add\<close> registers a child, or disposes it at
  once when the parent is closed; \<^verbatim>\<open>remove\<close> detaches a child without disposing it;
  \<^verbatim>\<open>unsubscribe\<close> closes once, disposing every tracked child.
\<close>

definition InnerSubscriber_unsubscribe ::
  "nat \<Rightarrow> ('a, 'x, 'e) WindowSubscriber \<Rightarrow> ('a, 'x, 'e) WindowSubscriber" where
  "InnerSubscriber_unsubscribe i s = s\<lparr>innerClosed := (innerClosed s)(i := True)\<rparr>"

fun Subscription_dispose :: "child \<Rightarrow> ('a, 'x, 'e) WindowSubscriber \<Rightarrow> ('a, 'x, 'e) WindowSubscriber" where
  "Subscription_dispose (InnerChild i) s = InnerSubscriber_unsubscribe i s"
| "Subscription_dispose (WindowChild w) s = Subject_unsubscribe w s"

definition Subscription_add :: "child \<Rightarrow> ('a, 'x, 'e) WindowSubscriber \<Rightarrow> ('a, 'x, 'e) WindowSubscriber" where
  "Subscription_add c s =
     (if isUnsubscribed s then Subscription_dispose c s else s\<lparr>children := children s @ [c]\<rparr>)"

definition Subscription_remove :: "child \<Rightarrow> ('a, 'x, 'e) WindowSubscriber \<Rightarrow> ('a, 'x, 'e) WindowSubscriber" where
  "Subscription_remove c s = s\<lparr>children := removeAll c (children s)\<rparr>"

definition Window_unsubscribe :: "('a, 'x, 'e) WindowSubscriber \<Rightarrow> ('a, 'x, 'e) WindowSubscriber" where
  "Window_unsubscribe s =
     (if closed s then s
      else (fold Subscription_dispose (children s) s)\<lparr>children := [], closed := True\<rparr>)"

text \<open>
  The hooks. \<^verbatim>\<open>this.window\<close> is set by the constructor before anything is delivered; where
  it were undefined the JavaScript would throw on the first statement, and the hook is
  left without effect.
\<close>

definition Window_unsubscribeClosingNotification ::
  "('a, 'x, 'e) WindowSubscriber \<Rightarrow> ('a, 'x, 'e) WindowSubscriber" where
  "Window_unsubscribeClosingNotification s =
     (case closingNotification s of None \<Rightarrow> s | Some i \<Rightarrow> InnerSubscriber_unsubscribe i s)"

definition Window__next :: "'a \<Rightarrow> ('a, 'x, 'e) WindowSubscriber \<Rightarrow> ('a, 'x, 'e) WindowSubscriber" where
  "Window__next v s = (case window s of None \<Rightarrow> s | Some w \<Rightarrow> Subject_next v w s)"

definition Window__error :: "'e \<Rightarrow> ('a, 'x, 'e) WindowSubscriber \<Rightarrow> ('a, 'x, 'e) WindowSubscriber" where
  "Window__error err s =
     (case window s of
        None \<Rightarrow> s
      | Some w \<Rightarrow>
          (let s1 = Subject_error err w s;
               s2 = s1\<lparr>destination := Observer_error err (destination s1)\<rparr>
           in Window_unsubscribeClosingNotification s2))"

definition Window__complete :: "('a, 'x, 'e) WindowSubscriber \<Rightarrow> ('a, 'x, 'e) WindowSubscriber" where
  "Window__complete s =
     (case window s of
        None \<Rightarrow> s
      | Some w \<Rightarrow>
          (let s1 = Subject_complete w s;
               s2 = s1\<lparr>destination := Observer_complete (destination s1)\<rparr>
           in Window_unsubscribeClosingNotification s2))"

text \<open>
  Modelled from the spec: an \<^verbatim>\<open>InnerSubscriber\<close> (section 4.4) is a Subscriber bound to an
  outer coordinator; it reports each event of the notifier through one of the three
  callbacks of the coordinator, given here as arguments; a closed one drops the event, and
  error and completion close it afterwards. A callback that does not return (\<open>None\<close>)
  keeps the delivery from returning.
\<close>

fun InnerSubscriber_on ::
  "('x \<Rightarrow> nat \<Rightarrow> ('a, 'x, 'e) WindowSubscriber \<Rightarrow> ('a, 'x, 'e) WindowSubscriber option) \<Rightarrow>
   ('e \<Rightarrow> nat \<Rightarrow> ('a, 'x, 'e) WindowSubscriber \<Rightarrow> ('a, 'x, 'e) WindowSubscriber option) \<Rightarrow>
   (nat \<Rightarrow> ('a, 'x, 'e) WindowSubscriber \<Rightarrow> ('a, 'x, 'e) WindowSubscriber option) \<Rightarrow>
   ('x, 'e) notification \<Rightarrow> nat \<Rightarrow> ('a, 'x, 'e) WindowSubscriber \<Rightarrow>
   ('a, 'x, 'e) WindowSubscriber option" where
  "InnerSubscriber_on notifyNext notifyError notifyComplete (OnNext x) i s =
     (if innerClosed s i then Some s else notifyNext x i s)"
| "InnerSubscriber_on notifyNext notifyError notifyComplete (OnError err) i s =
     (if innerClosed s i then Some s
      else map_option (InnerSubscriber_unsubscribe i) (notifyError err i s))"
| "InnerSubscriber_on notifyNext notifyError notifyComplete OnComplete i s =
     (if innerClosed s i then Some s
      else map_option (InnerSubscriber_unsubscribe i) (notifyComplete i s))"

text \<open>
  Modelled from the spec: \<^verbatim>\<open>subscribeToResult(outer, notifier)\<close> (section 4.4) subscribes the
  notifier through the \<^verbatim>\<open>InnerSubscriber\<close> \<open>i\<close> created for it: what the notifier pushes on
  subscription is delivered to \<open>i\<close>, in order, before the call returns.
\<close>

fun subscribeToResult ::
  "('x \<Rightarrow> nat \<Rightarrow> ('a, 'x, 'e) WindowSubscriber \<Rightarrow> ('a, 'x, 'e) WindowSubscriber option) \<Rightarrow>
   ('e \<Rightarrow> nat \<Rightarrow> ('a, 'x, 'e) WindowSubscriber \<Rightarrow> ('a, 'x, 'e) WindowSubscriber option) \<Rightarrow>
   (nat \<Rightarrow> ('a, 'x, 'e) WindowSubscriber \<Rightarrow> ('a, 'x, 'e) WindowSubscriber option) \<Rightarrow>
   ('x, 'e) notification list \<Rightarrow> nat \<Rightarrow> ('a, 'x, 'e) WindowSubscriber \<Rightarrow>
   ('a, 'x, 'e) WindowSubscriber option" where
  "subscribeToResult notifyNext notifyError notifyComplete [] i s = Some s"
| "subscribeToResult notifyNext notifyError notifyComplete (n # ns) i s =
     (case InnerSubscriber_on notifyNext notifyError notifyComplete n i s of
        None \<Rightarrow> None
      | Some t \<Rightarrow> subscribeToResult notifyNext notifyError notifyComplete ns i t)"

text \<open>
  \<^verbatim>\<open>notifyError(error, innerSub)\<close> calls the hook \<^verbatim>\<open>_error\<close>.
\<close>

definition Window_notifyError ::
  "'e \<Rightarrow> nat \<Rightarrow> ('a, 'x, 'e) WindowSubscriber \<Rightarrow> ('a, 'x, 'e) WindowSubscriber option" where
  "Window_notifyError err innerSub s = Some (Window__error err s)"

text \<open>
  \<^verbatim>\<open>openWindow(innerSub)\<close>, statement by statement: detach and unsubscribe \<^verbatim>\<open>innerSub\<close> when
  given; complete the previous window when there is one; create the new \<^verbatim>\<open>Subject\<close>, store
  it in \<^verbatim>\<open>this.window\<close> and send it to the destination; call \<^verbatim>\<open>closingSelector\<close>. When the
  call throws, the error goes to the destination and then to \<^verbatim>\<open>this.window\<close>. Otherwise
  \<^verbatim>\<open>subscribeToResult\<close> creates an \<^verbatim>\<open>InnerSubscriber\<close> and subscribes the notifier; when it
  has returned, its result is stored in \<^verbatim>\<open>this.closingNotification\<close> and added as a child,
  and then the local \<^verbatim>\<open>window\<close> is added as a child.

  The notifier may push while it is being subscribed, and then \<^verbatim>\<open>notifyNext\<close> and
  \<^verbatim>\<open>notifyComplete\<close>, which are \<^verbatim>\<open>this.openWindow(innerSub)\<close>, run inside this call of
  \<^verbatim>\<open>openWindow\<close>: the function calls itself, and nothing in the code bounds the nesting.
  \<open>Window_openWindow depth\<close> is the call with room for \<open>depth\<close> nested activations of
  \<^verbatim>\<open>openWindow\<close>; it is \<open>None\<close> when the nesting goes deeper, so a call that returns is one
  that is \<open>Some\<close> for some depth, and a call that is \<open>None\<close> for every depth never returns.
\<close>

primrec Window_openWindow ::
  "nat \<Rightarrow> nat option \<Rightarrow> ('a, 'x, 'e) WindowSubscriber \<Rightarrow> ('a, 'x, 'e) WindowSubscriber option" where
  "Window_openWindow 0 = (\<lambda>innerSub s0. None)"
| "Window_openWindow (Suc depth) = (\<lambda>innerSub s0.
     (let s1 = (case innerSub of
                  None \<Rightarrow> s0
                | Some i \<Rightarrow> InnerSubscriber_unsubscribe i (Subscription_remove (InnerChild i) s0));
          s2 = (case window s1 of None \<Rightarrow> s1 | Some prevWindow \<Rightarrow> Subject_complete prevWindow s1);
          w = nsubjects s2;
          s3 = s2\<lparr>subjects := (subjects s2)(w := Observer_new), nsubjects := Suc w,
                 window := Some w\<rparr>;
          s4 = s3\<lparr>destination := Observer_next w (destination s3)\<rparr>;
          k = selectorCalls s4;
          s5 = s4\<lparr>selectorCalls := Suc k\<rparr>
      in case closingSelector s5 k of
           Throws err \<Rightarrow>
             Some (Subject_error err w (s5\<lparr>destination := Observer_error err (destination s5)\<rparr>))
         | Returns pushed \<Rightarrow>
             (let i = ninners s5;
                  s6 = s5\<lparr>innerClosed := (innerClosed s5)(i := False), ninners := Suc i\<rparr>
              in case subscribeToResult
                        (\<lambda>innerValue innerSub. Window_openWindow depth (Some innerSub))
                        Window_notifyError
                        (\<lambda>innerSub. Window_openWindow depth (Some innerSub))
                        pushed i s6 of
                   None \<Rightarrow> None
                 | Some s7 \<Rightarrow>
                     Some (Subscription_add (WindowChild w)
                             (Subscription_add (InnerChild i)
                                (s7\<lparr>closingNotification := Some i\<rparr>))))))"

text \<open>
  The other two callbacks of the outer coordinator, as the code has them; they are the
  functions \<open>Window_openWindow\<close> hands to \<open>subscribeToResult\<close>. \<^verbatim>\<open>notifyNext\<close> ignores the
  notifier's value.
\<close>

definition Window_notifyNext ::
  "nat \<Rightarrow> 'x \<Rightarrow> nat \<Rightarrow> ('a, 'x, 'e) WindowSubscriber \<Rightarrow> ('a, 'x, 'e) WindowSubscriber option" where
  "Window_notifyNext depth innerValue innerSub s = Window_openWindow depth (Some innerSub) s"

definition Window_notifyComplete ::
  "nat \<Rightarrow> nat \<Rightarrow> ('a, 'x, 'e) WindowSubscriber \<Rightarrow> ('a, 'x, 'e) WindowSubscriber option" where
  "Window_notifyComplete depth innerSub s = Window_openWindow depth (Some innerSub) s"

text \<open>
  The constructor: \<^verbatim>\<open>super(destination); this.openWindow()\<close>. \<open>Window_initial\<close> is the
  subscriber after \<^verbatim>\<open>super(destination)\<close>: nothing created, \<^verbatim>\<open>window\<close> and
  \<^verbatim>\<open>closingNotification\<close> undefined.
\<close>

definition Window_initial ::
  "(nat, 'e) Observer \<Rightarrow> (nat \<Rightarrow> ('x, 'e) selector_result) \<Rightarrow> ('a, 'x, 'e) WindowSubscriber" where
  "Window_initial d selector =
     \<lparr>destination = d, closed = False, subjects = (\<lambda>_. Observer_new), nsubjects = 0,
      window = None, innerClosed = (\<lambda>_. True), ninners = 0, closingNotification = None,
      children = [], closingSelector = selector, selectorCalls = 0\<rparr>"

definition WindowSubscriber_new ::
  "nat \<Rightarrow> (nat, 'e) Observer \<Rightarrow> (nat \<Rightarrow> ('x, 'e) selector_result) \<Rightarrow>
   ('a, 'x, 'e) WindowSubscriber option" where
  "WindowSubscriber_new depth d selector = Window_openWindow depth None (Window_initial d selector)"

text \<open>
  What the source pushes into the subscriber, through the inherited public methods. None
  of the three hooks calls \<^verbatim>\<open>openWindow\<close>.
\<close>

fun Window_source ::
  "('a, 'e) notification \<Rightarrow> ('a, 'x, 'e) WindowSubscriber \<Rightarrow> ('a, 'x, 'e) WindowSubscriber" where
  "Window_source (OnNext v) s = Subscriber_next Window__next v s"
| "Window_source (OnError err) s = Subscriber_error Window__error Window_unsubscribe err s"
| "Window_source OnComplete s = Subscriber_complete Window__complete Window_unsubscribe s"

text \<open>
  One delivery after the constructor has returned (section 5: each is atomic): from the
  source, or from the closing notifier into its \<^verbatim>\<open>InnerSubscriber\<close>. Every call of
  \<^verbatim>\<open>openWindow(innerSub)\<close> unsubscribes the \<^verbatim>\<open>InnerSubscriber\<close> that reported, so the notifier
  that can still push is the one subscribed last, whose \<^verbatim>\<open>InnerSubscriber\<close> is the one
  created last. (\<^verbatim>\<open>this.closingNotification\<close> need not refer to it: after a notifier has
  pushed on subscription, the outer \<^verbatim>\<open>openWindow\<close> stores its own, unsubscribed one.)
\<close>

datatype ('a, 'x, 'e) window_input =
  FromSource "('a, 'e) notification" | FromNotifier "('x, 'e) notification"

fun Window_on ::
  "nat \<Rightarrow> ('a, 'x, 'e) window_input \<Rightarrow> ('a, 'x, 'e) WindowSubscriber \<Rightarrow>
   ('a, 'x, 'e) WindowSubscriber option" where
  "Window_on depth (FromSource n) s = Some (Window_source n s)"
| "Window_on depth (FromNotifier n) s =
     (if ninners s = 0 then Some s
      else InnerSubscriber_on (Window_notifyNext depth) Window_notifyError
             (Window_notifyComplete depth) n (ninners s - 1) s)"

fun Window_run ::
  "nat \<Rightarrow> ('a, 'x, 'e) WindowSubscriber \<Rightarrow> ('a, 'x, 'e) window_input list \<Rightarrow>
   ('a, 'x, 'e) WindowSubscriber option" where
  "Window_run depth s [] = Some s"
| "Window_run depth s (i # is) =
     (case Window_on depth i s of None \<Rightarrow> None | Some t \<Rightarrow> Window_run depth t is)"

text \<open>Subscription (the constructor), followed by deliveries when it has returned.\<close>

definition WindowWhen_run ::
  "nat \<Rightarrow> (nat \<Rightarrow> ('x, 'e) selector_result) \<Rightarrow> ('a, 'x, 'e) window_input list \<Rightarrow>
   ('a, 'x, 'e) WindowSubscriber option" where
  "WindowWhen_run depth selector is =
     (case WindowSubscriber_new depth Observer_new selector of
        None \<Rightarrow> None
      | Some s \<Rightarrow> Window_run depth s is)"

text \<open>
  The inputs that occur while the source is alive and the notifiers do not fail: a source
  value, and a value or the completion of the closing notifier. \<open>fires\<close> counts the
  latter, \<open>window_source_values\<close> lists the former.
\<close>

fun lifetime_input :: "('a, 'x, 'e) window_input \<Rightarrow> bool" where
  "lifetime_input (FromSource (OnNext v)) = True"
| "lifetime_input (FromNotifier (OnNext x)) = True"
| "lifetime_input (FromNotifier OnComplete) = True"
| "lifetime_input _ = False"

fun fires :: "('a, 'x, 'e) window_input list \<Rightarrow> nat" where
  "fires [] = 0"
| "fires (FromNotifier n # is) = Suc (fires is)"
| "fires (_ # is) = fires is"

fun window_source_values :: "('a, 'x, 'e) window_input list \<Rightarrow> 'a list" where
  "window_source_values [] = []"
| "window_source_values (FromSource (OnNext v) # is) = v # window_source_values is"
| "window_source_values (_ # is) = window_source_values is"

text \<open>
  A call of the selector whose notifier fires while it is being subscribed: the first
  thing it pushes is a value or its completion.
\<close>

fun fires_on_subscription :: "('x, 'e) selector_result \<Rightarrow> bool" where
  "fires_on_subscription (Returns (OnNext x # ns)) = True"
| "fires_on_subscription (Returns (OnComplete # ns)) = True"
| "fires_on_subscription _ = False"

text \<open>The contents of a window, and of all windows in the order they were opened.\<close>

definition window_contents :: "('a, 'x, 'e) WindowSubscriber \<Rightarrow> nat \<Rightarrow> 'a list" where
  "window_contents s w = nexts (received (subjects s w))"

definition all_contents :: "('a, 'x, 'e) WindowSubscriber \<Rightarrow> 'a list" where
  "all_contents s = concat (map (window_contents s) [0..<nsubjects s])"

text \<open>
  What a window has received: values only, followed by its completion when it has been
  completed, and it is stopped exactly then.
\<close>

definition window_log :: "('a, 'e) Observer \<Rightarrow> bool \<Rightarrow> bool" where
  "window_log d completed \<longleftrightarrow>
     stopped d = completed
     \<and> received d = map OnNext (nexts (received d)) @ (if completed then [OnComplete] else [])"

text \<open>
  The states the subscriber is in while the source is alive and nothing has failed: the
  destination has received the windows created so far; the last window created is the
  current one and the only one open; every window holds values only, followed by its
  completion when it is not the current one; every call of the selector has produced one
  window and one inner subscription, of which the last is the only live one.
\<close>

definition window_active :: "('a, 'x, 'e) WindowSubscriber \<Rightarrow> bool" where
  "window_active s \<longleftrightarrow>
     \<not> closed s \<and> \<not> stopped (destination s)
     \<and> received (destination s) = map OnNext [0..<nsubjects s]
     \<and> 0 < nsubjects s \<and> window s = Some (nsubjects s - 1)
     \<and> window_log (subjects s (nsubjects s - 1)) False
     \<and> (\<forall>w<nsubjects s - 1. window_log (subjects s w) True)
     \<and> ninners s = nsubjects s \<and> selectorCalls s = nsubjects s
     \<and> (\<forall>j<ninners s. innerClosed s j = (j \<noteq> ninners s - 1))"

text \<open>
  What \<^verbatim>\<open>openWindow\<close> is called on while nothing has failed: the state the constructor
  starts from, or an active state, for the live inner subscription.
\<close>

definition window_ready :: "nat option \<Rightarrow> ('a, 'x, 'e) WindowSubscriber \<Rightarrow> bool" where
  "window_ready a s \<longleftrightarrow>
     (a = None \<and> (\<exists>selector. s = Window_initial Observer_new selector))
     \<or> (a = Some (ninners s - 1) \<and> window_active s)"

text \<open>
  The state of \<^verbatim>\<open>openWindow\<close> when the selector has returned and \<^verbatim>\<open>subscribeToResult\<close> is
  about to subscribe the notifier, and what \<^verbatim>\<open>openWindow\<close> does when
  \<^verbatim>\<open>subscribeToResult\<close> has returned.
\<close>

definition Window_subscribing ::
  "nat option \<Rightarrow> ('a, 'x, 'e) WindowSubscriber \<Rightarrow> ('a, 'x, 'e) WindowSubscriber" where
  "Window_subscribing innerSub s0 =
     (let s1 = (case innerSub of
                  None \<Rightarrow> s0
                | Some i \<Rightarrow> InnerSubscriber_unsubscribe i (Subscription_remove (InnerChild i) s0));
          s2 = (case window s1 of None \<Rightarrow> s1 | Some prevWindow \<Rightarrow> Subject_complete prevWindow s1);
          w = nsubjects s2;
          i = ninners s2
      in s2\<lparr>subjects := (subjects s2)(w := Observer_new), nsubjects := Suc w, window := Some w,
            destination := Observer_next w (destination s2),
            selectorCalls := Suc (selectorCalls s2),
            innerClosed := (innerClosed s2)(i := False), ninners := Suc i\<rparr>)"

definition Window_subscribed ::
  "nat \<Rightarrow> nat \<Rightarrow> ('a, 'x, 'e) WindowSubscriber \<Rightarrow> ('a, 'x, 'e) WindowSubscriber" where
  "Window_subscribed w i s7 =
     Subscription_add (WindowChild w)
       (Subscription_add (InnerChild i) (s7\<lparr>closingNotification := Some i\<rparr>))"

section \<open>Facts about IsEmpty\<close>

lemma IsEmpty_on_closed: "isUnsubscribed s \<Longrightarrow> IsEmpty_on n s = s"
  by (cases n) (simp_all add: Subscriber_next_def Subscriber_error_def Subscriber_complete_def)

lemma IsEmpty_run_closed: "isUnsubscribed s \<Longrightarrow> IsEmpty_run s ns = s"
  by (induction ns) (simp_all add: IsEmpty_on_closed)

lemma IsEmpty_notifyComplete_received:
  "\<not> stopped (destination s) \<Longrightarrow>
   received (destination (IsEmpty_notifyComplete b s)) =
     received (destination s) @ [OnNext b, OnComplete]"
  by (simp add: IsEmpty_notifyComplete_def Observer_next_def Observer_complete_def)

lemma IsEmpty_notifyComplete_closes: "isUnsubscribed (IsEmpty_notifyComplete b s)"
  by (simp add: IsEmpty_notifyComplete_def isUnsubscribed_def Observer_next_def
      Observer_complete_def)

lemma Subscriber_unsubscribe_closes: "isUnsubscribed (Subscriber_unsubscribe s)"
  by (simp add: Subscriber_unsubscribe_def isUnsubscribed_def)

lemma IsEmpty_on_closes: "isUnsubscribed (IsEmpty_on n s)"
proof (cases "isUnsubscribed s")
  case True
  then show ?thesis by (simp add: IsEmpty_on_closed)
next
  case False
  then show ?thesis
    by (cases n)
      (simp_all add: Subscriber_next_def Subscriber_error_def Subscriber_complete_def
        IsEmpty__next_def IsEmpty_notifyComplete_closes Subscriber_unsubscribe_closes)
qed

lemma IsEmpty_run_first:
  "IsEmpty_run s (n # ns) = IsEmpty_on n s"
  by (simp add: IsEmpty_run_closed IsEmpty_on_closes)

text \<open>
  C9. Subscribed with an open destination, IsEmpty delivers nothing while the source is
  silent; when the source's first notification is a value (whatever the value) it delivers
  false and then complete; when it is completion it delivers true and then complete; when
  it is an error it delivers that error and no boolean. Nothing the source does afterwards
  adds to this.
\<close>

theorem IsEmpty_emits_one_boolean:
  "received (destination (IsEmpty_run (IsEmptySubscriber_new Observer_new) ns)) =
     (case ns of
        [] \<Rightarrow> []
      | OnNext v # _ \<Rightarrow> [OnNext False, OnComplete]
      | OnError e # _ \<Rightarrow> [OnError e]
      | OnComplete # _ \<Rightarrow> [OnNext True, OnComplete])"
proof (cases ns)
  case Nil
  then show ?thesis by (simp add: IsEmptySubscriber_new_def Observer_new_def)
next
  case (Cons n rest)
  have run: "IsEmpty_run (IsEmptySubscriber_new Observer_new) (n # rest) =
      IsEmpty_on n (IsEmptySubscriber_new Observer_new)"
    by (rule IsEmpty_run_first)
  show ?thesis
    unfolding Cons run
    by (cases n)
      (simp_all add: IsEmptySubscriber_new_def Observer_new_def Subscriber_next_def
        Subscriber_error_def Subscriber_complete_def isUnsubscribed_def IsEmpty__next_def
        IsEmpty__complete_def IsEmpty_notifyComplete_def Observer_next_def
        Observer_complete_def Observer_error_def Subscriber__error_def
        Subscriber_unsubscribe_def)
qed

text \<open>
  C5. When an IsEmpty subscriber that is not closed observes a value, its destination
  receives false and then complete at once (the source has not completed); the subscriber
  is closed from then on, and whatever the source does next leaves it as it is.
\<close>

theorem IsEmpty_first_value_completes:
  assumes "\<not> isUnsubscribed s"
  shows "received (destination (IsEmpty_on (OnNext (v::'a)) s)) =
           received (destination s) @ [OnNext False, OnComplete]
       \<and> stopped (destination (IsEmpty_on (OnNext v) s))
       \<and> isUnsubscribed (IsEmpty_on (OnNext v) s)
       \<and> (\<forall>ns::('a, 'e) notification list.
            IsEmpty_run (IsEmpty_on (OnNext v) s) ns = IsEmpty_on (OnNext v) s)"
proof -
  from assms have "\<not> stopped (destination s)"
    by (simp add: isUnsubscribed_def)
  then have "received (destination (IsEmpty_on (OnNext v) s)) =
      received (destination s) @ [OnNext False, OnComplete]"
    using assms
    by (simp add: Subscriber_next_def IsEmpty__next_def IsEmpty_notifyComplete_received)
  moreover have "stopped (destination (IsEmpty_on (OnNext v) s))"
    using assms
    by (simp add: Subscriber_next_def IsEmpty__next_def IsEmpty_notifyComplete_def
        Observer_next_def Observer_complete_def isUnsubscribed_def)
  moreover have "isUnsubscribed (IsEmpty_on (OnNext v) s)"
    by (rule IsEmpty_on_closes)
  ultimately show ?thesis
    by (simp add: IsEmpty_run_closed)
qed

theorem IsEmpty_first_value_completes_witness:
  "received (destination (IsEmpty_on (OnNext (42::int))
       (IsEmptySubscriber_new (Observer_new :: (bool, unit) Observer)))) =
     [OnNext False, OnComplete]
   \<and> IsEmpty_run (IsEmpty_on (OnNext (42::int))
        (IsEmptySubscriber_new (Observer_new :: (bool, unit) Observer)))
        [OnNext (7::int), OnComplete] =
      IsEmpty_on (OnNext (42::int)) (IsEmptySubscriber_new Observer_new)"
proof -
  have open_new: "\<not> isUnsubscribed (IsEmptySubscriber_new (Observer_new :: (bool, unit) Observer))"
    by (simp add: isUnsubscribed_def IsEmptySubscriber_new_def Observer_new_def)
  note fact = IsEmpty_first_value_completes [OF open_new, of "42::int"]
  from fact have "received (destination (IsEmpty_on (OnNext (42::int))
       (IsEmptySubscriber_new (Observer_new :: (bool, unit) Observer)))) =
     received (destination (IsEmptySubscriber_new (Observer_new :: (bool, unit) Observer)))
       @ [OnNext False, OnComplete]"
    by (rule conjunct1)
  moreover from fact have "IsEmpty_run (IsEmpty_on (OnNext (42::int))
        (IsEmptySubscriber_new (Observer_new :: (bool, unit) Observer)))
        [OnNext (7::int), OnComplete] =
      IsEmpty_on (OnNext (42::int)) (IsEmptySubscriber_new Observer_new)"
    by blast
  ultimately show ?thesis
    by (simp add: IsEmptySubscriber_new_def Observer_new_def)
qed

section \<open>Facts about Distinct\<close>

lemma nexts_append: "nexts (ms @ ns) = nexts ms @ nexts ns"
  by (induction ms rule: nexts.induct) simp_all

lemma Distinct_found_total:
  "Distinct_found (\<lambda>x y. Inr (cmp x y)) xs v = Inr (\<exists>x\<in>set xs. cmp x v)"
  by (induction xs) simp_all

lemma Distinct_found_throws:
  "i < length xs \<Longrightarrow> cmp (xs ! i) v = Inl err \<Longrightarrow> \<forall>j<i. cmp (xs ! j) v = Inr False \<Longrightarrow>
   Distinct_found cmp xs v = Inl err"
proof (induction xs arbitrary: i)
  case Nil
  then show ?case by simp
next
  case (Cons x xs)
  show ?case
  proof (cases i)
    case 0
    with Cons.prems show ?thesis by simp
  next
    case (Suc k)
    from Cons.prems Suc have head: "cmp x v = Inr False" by auto
    from Cons.prems Suc have "k < length xs" "cmp (xs ! k) v = Inl err"
      "\<forall>j<k. cmp (xs ! j) v = Inr False"
      by auto
    then have "Distinct_found cmp xs v = Inl err" by (rule Cons.IH)
    with head show ?thesis by simp
  qed
qed

lemma Distinct_on_closed_destination:
  "isUnsubscribed s \<Longrightarrow> destination (Distinct_on i s) = destination s"
  by (cases "(i, s)" rule: Distinct_on.cases)
    (simp_all add: Distinct_next_def Distinct_error_def Distinct_complete_def
      Subscriber_next_def Subscriber_error_def Subscriber_complete_def
      FlushSubscriber_next_def FlushSubscriber_error_def FlushSubscriber_complete_def
      Distinct_flush_def)

lemma Distinct_on_closed_closed:
  "isUnsubscribed s \<Longrightarrow> isUnsubscribed (Distinct_on i s)"
  by (cases "(i, s)" rule: Distinct_on.cases)
    (simp_all add: Distinct_next_def Distinct_error_def Distinct_complete_def
      Subscriber_next_def Subscriber_error_def Subscriber_complete_def
      FlushSubscriber_next_def FlushSubscriber_error_def FlushSubscriber_complete_def
      Distinct_flush_def isUnsubscribed_def)

lemma Distinct_run_closed_destination:
  "isUnsubscribed s \<Longrightarrow> destination (Distinct_run s is) = destination s"
  by (induction "is" arbitrary: s)
    (simp_all add: Distinct_on_closed_destination Distinct_on_closed_closed)

text \<open>
  With the default comparator a \<^verbatim>\<open>NaN\<close> is never found in the memory, so each one is
  forwarded; here \<open>None\<close> stands for \<^verbatim>\<open>NaN\<close> among the numbers \<open>Some n\<close>.
\<close>

lemma Distinct_default_forwards_every_NaN:
  "received (destination (Distinct_run (DistinctSubscriber_new (\<lambda>v. v = None) Observer_new None)
      (map (\<lambda>v. Source (OnNext v)) [None, Some (1::int), None, Some 1]))) =
     [OnNext None, OnNext (Some 1), OnNext None]"
  by (simp add: DistinctSubscriber_new_def strictEquals_def Observer_new_def Distinct_next_def
      Subscriber_next_def isUnsubscribed_def Distinct__next_def Observer_next_def)

text \<open>
  C2. For a subscriber that is not closed and a comparator \<open>cmp\<close> that returns (does not
  throw), \<^verbatim>\<open>next(v)\<close> forwards \<open>v\<close> to the destination exactly when \<open>cmp x v\<close> is false for
  every \<open>x\<close> in the memory, and then appends \<open>v\<close> to the memory; otherwise nothing changes.
  With the default comparator the source 1,2,2,3,1 yields 1,2,3; with the comparator
  \<^verbatim>\<open>x % 3 === y % 3\<close> the source 1,2,3,4,5 yields 1,2,3 (the values are integers, none of
  which is \<^verbatim>\<open>NaN\<close>).
\<close>

theorem Distinct_forwards_iff_unmatched:
  assumes "\<not> isUnsubscribed s" and "compare s = (\<lambda>x y. Inr (cmp x y))"
  shows "Distinct_next v s =
           (if \<forall>x\<in>set (values s). \<not> cmp x v
            then s\<lparr>values := values s @ [v],
                   destination := (destination s)\<lparr>received := received (destination s) @ [OnNext v]\<rparr>\<rparr>
            else s)
       \<and> received (destination (Distinct_run (DistinctSubscriber_new (\<lambda>v. False) Observer_new None)
            (map (\<lambda>v. Source (OnNext v)) [1, 2, 2, 3, 1 :: int]))) =
          [OnNext 1, OnNext 2, OnNext 3]
       \<and> received (destination (Distinct_run
            (DistinctSubscriber_new (\<lambda>v. False) Observer_new (Some (\<lambda>x y. Inr (x smod 3 = y smod 3))))
            (map (\<lambda>v. Source (OnNext v)) [1, 2, 3, 4, 5 :: int]))) =
          [OnNext 1, OnNext 2, OnNext 3]"
proof -
  from assms(1) have open_dest: "\<not> stopped (destination s)"
    by (simp add: isUnsubscribed_def)
  have step: "Distinct_next v s =
      (if \<forall>x\<in>set (values s). \<not> cmp x v
       then s\<lparr>values := values s @ [v],
              destination := (destination s)\<lparr>received := received (destination s) @ [OnNext v]\<rparr>\<rparr>
       else s)"
    using assms(1) open_dest
    by (simp add: Distinct_next_def Subscriber_next_def Distinct__next_def assms(2)
        Distinct_found_total Observer_next_def)
  have ex1: "received (destination (Distinct_run (DistinctSubscriber_new (\<lambda>v. False) Observer_new None)
        (map (\<lambda>v. Source (OnNext v)) [1, 2, 2, 3, 1 :: int]))) =
      [OnNext 1, OnNext 2, OnNext 3]"
    by (simp add: DistinctSubscriber_new_def strictEquals_def Observer_new_def Distinct_next_def
        Subscriber_next_def isUnsubscribed_def Distinct__next_def Observer_next_def)
  have ex2: "received (destination (Distinct_run
        (DistinctSubscriber_new (\<lambda>v. False) Observer_new (Some (\<lambda>x y. Inr (x smod 3 = y smod 3))))
        (map (\<lambda>v. Source (OnNext v)) [1, 2, 3, 4, 5 :: int]))) =
      [OnNext 1, OnNext 2, OnNext 3]"
    by (simp add: DistinctSubscriber_new_def strictEquals_def Observer_new_def Distinct_next_def
        Subscriber_next_def isUnsubscribed_def Distinct__next_def Observer_next_def
        smod_int_alt_def sgn_if)
  from step ex1 ex2 show ?thesis by (intro conjI)
qed


theorem Distinct_forwards_iff_unmatched_witness:
  "Distinct_next (3::int)
     \<lparr>destination = Observer_new, closed = False, values = [1, 2],
      compare = (\<lambda>x y. Inr (x = y))\<rparr> =
   \<lparr>destination = \<lparr>received = [OnNext 3], stopped = False\<rparr>, closed = False,
    values = [1, 2, 3], compare = (\<lambda>x y. Inr (x = y)) :: int \<Rightarrow> int \<Rightarrow> unit + bool\<rparr>"
proof -
  let ?s = "\<lparr>destination = Observer_new, closed = False, values = [1, 2 :: int],
      compare = (\<lambda>x y. Inr (x = y)) :: int \<Rightarrow> int \<Rightarrow> unit + bool\<rparr>"
  have 1: "\<not> isUnsubscribed ?s"
    by (simp add: isUnsubscribed_def Observer_new_def)
  have 2: "compare ?s = (\<lambda>x y. Inr (x = y))"
    by simp
  from Distinct_forwards_iff_unmatched [OF 1 2, of 3]
  have "Distinct_next 3 ?s =
      (if \<forall>x\<in>set (values ?s). \<not> x = 3
       then ?s\<lparr>values := values ?s @ [3],
              destination := (destination ?s)\<lparr>received := received (destination ?s) @ [OnNext 3]\<rparr>\<rparr>
       else ?s)"
    by (rule conjunct1)
  then show ?thesis
    by (simp add: Observer_new_def)
qed

lemma Distinct_next_throws:
  assumes "\<not> isUnsubscribed s" and "Distinct_found (compare s) (values s) v = Inl err"
  shows "Distinct_next v s =
    s\<lparr>destination := \<lparr>received = received (destination s) @ [OnError err], stopped = True\<rparr>\<rparr>"
  using assms
  by (simp add: Distinct_next_def Subscriber_next_def Distinct__next_def Observer_error_def
      isUnsubscribed_def)

text \<open>
  C4. When the comparator throws during the scan for a value \<open>v\<close> (at the memory entry of
  index \<open>i\<close>, the entries before it having compared false), the destination receives the
  exception as an error, the Distinct subscriber is closed, and whatever the source or
  \<^verbatim>\<open>flushes\<close> deliver afterwards adds nothing to what the destination received.
\<close>

theorem Distinct_compare_throws:
  assumes "\<not> isUnsubscribed s"
    and "i < length (values s)"
    and "compare s (values s ! i) v = Inl err"
    and "\<forall>j<i. compare s (values s ! j) v = Inr False"
  shows "received (destination (Distinct_next v s)) = received (destination s) @ [OnError err]
       \<and> isUnsubscribed (Distinct_next v s)
       \<and> (\<forall>is :: ('a, 'f, 'e) distinct_input list.
            received (destination (Distinct_run (Distinct_next v s) is)) =
              received (destination s) @ [OnError err])"
proof -
  from assms(2-4) have "Distinct_found (compare s) (values s) v = Inl err"
    by (rule Distinct_found_throws)
  with assms(1) have step: "Distinct_next v s =
      s\<lparr>destination := \<lparr>received = received (destination s) @ [OnError err], stopped = True\<rparr>\<rparr>"
    by (rule Distinct_next_throws)
  then have rcv: "received (destination (Distinct_next v s)) =
      received (destination s) @ [OnError err]"
    by simp
  from step have cl: "isUnsubscribed (Distinct_next v s)"
    by (simp add: isUnsubscribed_def)
  from cl rcv show ?thesis
    by (simp add: Distinct_run_closed_destination)
qed

theorem Distinct_compare_throws_witness:
  "received (destination (Distinct_run
     (Distinct_next (3::int)
       \<lparr>destination = Observer_new, closed = False, values = [1, 2],
        compare = (\<lambda>x y. if y = 3 \<and> x = 2 then Inl ''boom'' else Inr (x = y))\<rparr>)
     [Source (OnNext 4), Flushes (OnNext ()), Source (OnNext 1), Source OnComplete])) =
   [OnError ''boom'']"
proof -
  let ?s = "\<lparr>destination = Observer_new, closed = False, values = [1, 2 :: int],
      compare = (\<lambda>x y. if y = 3 \<and> x = 2 then Inl ''boom'' else Inr (x = y))\<rparr>"
  have 1: "\<not> isUnsubscribed ?s"
    by (simp add: isUnsubscribed_def Observer_new_def)
  have 2: "1 < length (values ?s)"
    by simp
  have 3: "compare ?s (values ?s ! 1) 3 = Inl ''boom''"
    by simp
  have 4: "\<forall>j<1. compare ?s (values ?s ! j) 3 = Inr False"
    by simp
  from Distinct_compare_throws [OF 1 2 3 4, where 'f = unit]
  have "\<forall>is :: (int, unit, string) distinct_input list.
      received (destination (Distinct_run (Distinct_next 3 ?s) is)) =
        received (destination ?s) @ [OnError ''boom'']"
    by (elim conjE)
  then have "received (destination (Distinct_run (Distinct_next 3 ?s)
      [Source (OnNext 4), Flushes (OnNext ()), Source (OnNext 1), Source OnComplete])) =
        received (destination ?s) @ [OnError ''boom'']"
    by (rule spec)
  then show ?thesis
    by (simp only: Observer_new_def Subscriber.simps Observer.simps append_Nil)
qed

lemma Distinct_error_open:
  assumes "\<not> isUnsubscribed s"
  shows "Distinct_error err s =
    s\<lparr>destination := \<lparr>received = received (destination s) @ [OnError err], stopped = True\<rparr>,
      closed := True\<rparr>"
  using assms
  by (simp add: Distinct_error_def Subscriber_error_def Subscriber__error_def
      Distinct_unsubscribe_def Subscriber_unsubscribe_def Observer_error_def isUnsubscribed_def)

text \<open>
  C8. A value from \<^verbatim>\<open>flushes\<close> empties the memory and changes neither the destination nor
  the closed state of the subscriber, so that the next source value, compared against
  nothing, is forwarded; the source 1,2,(flush),1 yields 1,2,1. Completion of \<^verbatim>\<open>flushes\<close>
  changes nothing. An error of \<^verbatim>\<open>flushes\<close>, on a subscriber that is not closed, is delivered
  to the destination as an error and closes the subscriber.
\<close>

theorem Distinct_flushes_protocol:
  "values (FlushSubscriber_next x s) = []
   \<and> destination (FlushSubscriber_next x s) = destination s
   \<and> closed (FlushSubscriber_next x s) = closed s
   \<and> isUnsubscribed (FlushSubscriber_next x s) = isUnsubscribed s
   \<and> (\<not> isUnsubscribed s \<longrightarrow>
        received (destination (Distinct_next v (FlushSubscriber_next x s))) =
          received (destination s) @ [OnNext v])
   \<and> received (destination (Distinct_run (DistinctSubscriber_new (\<lambda>v. False) Observer_new None)
        [Source (OnNext (1::int)), Source (OnNext 2), Flushes (OnNext y), Source (OnNext 1)])) =
      [OnNext 1, OnNext 2, OnNext 1]
   \<and> FlushSubscriber_complete s = s
   \<and> (\<not> isUnsubscribed s \<longrightarrow>
        received (destination (FlushSubscriber_error err s)) =
          received (destination s) @ [OnError err]
        \<and> closed (FlushSubscriber_error err s)
        \<and> isUnsubscribed (FlushSubscriber_error err s))"
proof -
  have flush: "values (FlushSubscriber_next x s) = []
      \<and> destination (FlushSubscriber_next x s) = destination s
      \<and> closed (FlushSubscriber_next x s) = closed s
      \<and> isUnsubscribed (FlushSubscriber_next x s) = isUnsubscribed s"
    by (simp add: FlushSubscriber_next_def Distinct_flush_def isUnsubscribed_def)
  have readmit: "\<not> isUnsubscribed s \<longrightarrow>
      received (destination (Distinct_next v (FlushSubscriber_next x s))) =
        received (destination s) @ [OnNext v]"
    by (simp add: FlushSubscriber_next_def Distinct_flush_def isUnsubscribed_def
        Distinct_next_def Subscriber_next_def Distinct__next_def Observer_next_def)
  have example: "received (destination (Distinct_run (DistinctSubscriber_new (\<lambda>v. False) Observer_new None)
        [Source (OnNext (1::int)), Source (OnNext 2), Flushes (OnNext y), Source (OnNext 1)])) =
      [OnNext 1, OnNext 2, OnNext 1]"
    by (simp add: DistinctSubscriber_new_def strictEquals_def Observer_new_def Distinct_next_def
        Subscriber_next_def isUnsubscribed_def Distinct__next_def Observer_next_def
        FlushSubscriber_next_def Distinct_flush_def)
  have complete: "FlushSubscriber_complete s = s"
    by (simp add: FlushSubscriber_complete_def)
  have error: "\<not> isUnsubscribed s \<longrightarrow>
      received (destination (FlushSubscriber_error err s)) =
        received (destination s) @ [OnError err]
      \<and> closed (FlushSubscriber_error err s)
      \<and> isUnsubscribed (FlushSubscriber_error err s)"
    by (simp add: FlushSubscriber_error_def Distinct_error_open isUnsubscribed_def)
  from flush readmit example complete error show ?thesis
    by (intro conjI) simp_all
qed

theorem Distinct_flushes_protocol_witness:
  "received (destination (Distinct_next (1::int) (FlushSubscriber_next ()
      (Distinct_run (DistinctSubscriber_new (\<lambda>v. False) Observer_new None)
        [Source (OnNext 1), Source (OnNext 2) :: (int, unit, string) distinct_input])))) =
     [OnNext 1, OnNext 2, OnNext 1]
   \<and> received (destination (FlushSubscriber_error ''flush failed''
      (Distinct_run (DistinctSubscriber_new (\<lambda>v. False) Observer_new None)
        [Source (OnNext 1), Source (OnNext 2) :: (int, unit, string) distinct_input]))) =
     [OnNext 1, OnNext 2, OnError ''flush failed'']
   \<and> isUnsubscribed (FlushSubscriber_error ''flush failed''
      (Distinct_run (DistinctSubscriber_new (\<lambda>v. False) Observer_new None)
        [Source (OnNext 1), Source (OnNext 2) :: (int, unit, string) distinct_input]))"
proof -
  let ?s = "Distinct_run (DistinctSubscriber_new (\<lambda>v. False) Observer_new None)
        [Source (OnNext 1), Source (OnNext 2) :: (int, unit, string) distinct_input]"
  have s: "?s = \<lparr>destination = \<lparr>received = [OnNext 1, OnNext 2], stopped = False\<rparr>,
      closed = False, values = [1, 2], compare = (\<lambda>x y. Inr (x = y))\<rparr>"
    by (simp add: DistinctSubscriber_new_def strictEquals_def Observer_new_def Distinct_next_def
        Subscriber_next_def isUnsubscribed_def Distinct__next_def Observer_next_def)
  have 1: "\<not> isUnsubscribed ?s"
    unfolding s by (simp add: isUnsubscribed_def)
  note fact = Distinct_flushes_protocol
    [where x = "()" and s = ?s and v = 1 and err = "''flush failed''" and y = "()"]
  from fact 1 have a: "received (destination (Distinct_next 1 (FlushSubscriber_next () ?s))) =
      received (destination ?s) @ [OnNext 1]"
    by blast
  from fact 1 have b: "received (destination (FlushSubscriber_error ''flush failed'' ?s)) =
      received (destination ?s) @ [OnError ''flush failed'']"
    by blast
  from fact 1 have c: "isUnsubscribed (FlushSubscriber_error ''flush failed'' ?s)"
    by blast
  have r: "received (destination ?s) = [OnNext 1, OnNext 2]"
    unfolding s by simp
  from a b c show ?thesis
    unfolding r by simp
qed

lemma Distinct_on_nexts:
  "\<exists>ys. nexts (received (destination (Distinct_on i s))) =
          nexts (received (destination s)) @ ys
      \<and> subseq ys (source_values [i])"
proof (cases "(i, s)" rule: Distinct_on.cases)
  case (1 v s')
  then show ?thesis
    by (auto simp add: Distinct_next_def Subscriber_next_def Distinct__next_def
        Observer_next_def Observer_error_def nexts_append split: sum.splits)
next
  case (2 e s')
  then show ?thesis
    by (simp add: Distinct_error_def Subscriber_error_def Subscriber__error_def
        Distinct_unsubscribe_def Subscriber_unsubscribe_def Observer_error_def nexts_append)
next
  case (3 s')
  then show ?thesis
    by (simp add: Distinct_complete_def Subscriber_complete_def Distinct__complete_def Subscriber__complete_def
        Distinct_unsubscribe_def Subscriber_unsubscribe_def Observer_complete_def nexts_append)
next
  case (4 x s')
  then show ?thesis
    by (simp add: FlushSubscriber_next_def Distinct_flush_def)
next
  case (5 e s')
  then show ?thesis
    by (simp add: FlushSubscriber_error_def Distinct_error_def Subscriber_error_def
        Subscriber__error_def Distinct_unsubscribe_def Subscriber_unsubscribe_def Observer_error_def nexts_append)
next
  case (6 s')
  then show ?thesis
    by (simp add: FlushSubscriber_complete_def)
qed

lemma source_values_Cons: "source_values (i # is) = source_values [i] @ source_values is"
  by (cases "i # is" rule: source_values.cases) simp_all

lemma Distinct_run_nexts:
  "\<exists>ys. nexts (received (destination (Distinct_run s is))) =
          nexts (received (destination s)) @ ys
      \<and> subseq ys (source_values is)"
proof (induction "is" arbitrary: s)
  case Nil
  then show ?case by simp
next
  case (Cons i "is")
  obtain ys where ys: "nexts (received (destination (Distinct_on i s))) =
      nexts (received (destination s)) @ ys" "subseq ys (source_values [i])"
    using Distinct_on_nexts by blast
  obtain zs where zs: "nexts (received (destination (Distinct_run (Distinct_on i s) is))) =
      nexts (received (destination (Distinct_on i s))) @ zs" "subseq zs (source_values is)"
    using Cons.IH by blast
  from ys(2) zs(2) have "subseq (ys @ zs) (source_values [i] @ source_values is)"
    by (rule list_emb_append_mono)
  then have "subseq (ys @ zs) (source_values (i # is))"
    by (simp only: source_values_Cons [of i "is"])
  with ys(1) zs(1) show ?case by auto
qed

text \<open>
  C10. A value from \<^verbatim>\<open>flushes\<close> leaves the destination as it is: nothing is forwarded for
  it. For every comparator and every interleaving of source and flush deliveries, the
  values the destination receives form a subsequence of the source's values, in source
  order.
\<close>

theorem Distinct_output_subseq:
  "destination (FlushSubscriber_next x s) = destination s
   \<and> subseq
       (nexts (received (destination
          (Distinct_run (DistinctSubscriber_new isNaN Observer_new cmp) is))))
       (source_values is)"
proof -
  obtain ys where "nexts (received (destination
        (Distinct_run (DistinctSubscriber_new isNaN Observer_new cmp) is))) =
      nexts (received (destination (DistinctSubscriber_new isNaN Observer_new cmp))) @ ys"
    and "subseq ys (source_values is)"
    using Distinct_run_nexts by blast
  then show ?thesis
    by (simp add: DistinctSubscriber_new_def strictEquals_def Observer_new_def FlushSubscriber_next_def
        Distinct_flush_def)
qed

section \<open>Facts about WindowWhen\<close>

lemma Window_notify_callbacks:
  "(\<lambda>innerValue innerSub. Window_openWindow depth (Some innerSub)) = Window_notifyNext depth"
  "(\<lambda>innerSub. Window_openWindow depth (Some innerSub)) = Window_notifyComplete depth"
  by (auto simp add: fun_eq_iff Window_notifyNext_def Window_notifyComplete_def)

lemma Window_openWindow_returns:
  assumes "closingSelector s (selectorCalls s) = Returns pushed"
  shows "Window_openWindow (Suc depth) a s =
    (case subscribeToResult (Window_notifyNext depth) Window_notifyError
            (Window_notifyComplete depth) pushed (ninners s) (Window_subscribing a s) of
       None \<Rightarrow> None
     | Some s7 \<Rightarrow> Some (Window_subscribed (nsubjects s) (ninners s) s7))"
proof -
  have eq: "Window_subscribing a s =
    (let s1 = (case a of
                  None \<Rightarrow> s
                | Some i \<Rightarrow> InnerSubscriber_unsubscribe i (Subscription_remove (InnerChild i) s));
          s2 = (case window s1 of None \<Rightarrow> s1 | Some prevWindow \<Rightarrow> Subject_complete prevWindow s1);
          w = nsubjects s2;
          s3 = s2\<lparr>subjects := (subjects s2)(w := Observer_new), nsubjects := Suc w,
                 window := Some w\<rparr>;
          s4 = s3\<lparr>destination := Observer_next w (destination s3)\<rparr>;
          k = selectorCalls s4;
          s5 = s4\<lparr>selectorCalls := Suc k\<rparr>;
          i = ninners s5
     in s5\<lparr>innerClosed := (innerClosed s5)(i := False), ninners := Suc i\<rparr>)"
    by (simp add: Window_subscribing_def Let_def)
  show ?thesis
    using assms
    unfolding eq Window_notify_callbacks [symmetric, of depth]
    by (simp add: Let_def Window_subscribed_def InnerSubscriber_unsubscribe_def
        Subscription_remove_def Subject_complete_def split: option.splits)
qed


lemma window_log_new: "window_log Observer_new False"
  by (simp add: window_log_def Observer_new_def)

lemma window_log_complete: "window_log d False \<Longrightarrow> window_log (Observer_complete d) True"
  by (simp add: window_log_def Observer_complete_def nexts_append)

lemma window_log_next:
  "window_log d False \<Longrightarrow> window_log (d\<lparr>received := received d @ [OnNext v]\<rparr>) False"
  by (simp add: window_log_def nexts_append)

lemma window_log_completed:
  "window_log d True \<Longrightarrow> received d = map OnNext (nexts (received d)) @ [OnComplete]"
  by (simp add: window_log_def)

lemma window_log_open:
  "window_log d False \<Longrightarrow> received d = map OnNext (nexts (received d))"
  by (simp add: window_log_def)

lemma window_active_logs:
  assumes "window_active s"
  shows "window_log (subjects s (nsubjects s - 1)) False"
    and "\<forall>w<nsubjects s - 1. window_log (subjects s w) True"
  using assms by (auto simp add: window_active_def)

lemma subscribeToResult_closed:
  "innerClosed s i \<Longrightarrow> subscribeToResult nn ne nc ns i s = Some s"
proof (induction ns)
  case Nil
  then show ?case by simp
next
  case (Cons n ns)
  then show ?case by (cases n) simp_all
qed

lemma InnerSubscriber_unsubscribe_idem:
  "innerClosed s i \<Longrightarrow> InnerSubscriber_unsubscribe i s = s"
  by (simp add: InnerSubscriber_unsubscribe_def fun_upd_idem)

lemma window_ready_counts:
  "window_ready a s \<Longrightarrow> ninners s = nsubjects s \<and> selectorCalls s = nsubjects s"
  by (auto simp add: window_ready_def window_active_def Window_initial_def)

lemma Window_subscribing_initial:
  "Window_subscribing None (Window_initial Observer_new selector) =
     (Window_initial Observer_new selector)
       \<lparr>subjects := (\<lambda>_. Observer_new), nsubjects := 1, window := Some 0,
        destination := \<lparr>received = [OnNext 0], stopped = False\<rparr>, selectorCalls := 1,
        innerClosed := (\<lambda>_. True)(0 := False), ninners := 1\<rparr>"
  by (simp add: Window_subscribing_def Window_initial_def Let_def Observer_new_def
      Observer_next_def fun_upd_idem)

lemma Window_subscribing_active_eq:
  assumes "window_active s"
  shows "Window_subscribing (Some (ninners s - 1)) s =
    s\<lparr>children := removeAll (InnerChild (ninners s - 1)) (children s),
      subjects := (subjects s)
        (nsubjects s - 1 := Observer_complete (subjects s (nsubjects s - 1)),
         nsubjects s := Observer_new),
      nsubjects := Suc (nsubjects s),
      window := Some (nsubjects s),
      destination := (destination s)\<lparr>received := received (destination s) @ [OnNext (nsubjects s)]\<rparr>,
      selectorCalls := Suc (selectorCalls s),
      innerClosed := (innerClosed s)(ninners s - 1 := True, ninners s := False),
      ninners := Suc (ninners s)\<rparr>"
  using assms
  by (simp add: window_active_def Window_subscribing_def Let_def InnerSubscriber_unsubscribe_def
      Subscription_remove_def Subject_complete_def Observer_next_def)

lemma all_contents_Suc:
  assumes "nsubjects s' = Suc (nsubjects s)"
    and "\<forall>w<nsubjects s. window_contents s' w = window_contents s w"
  shows "all_contents s' = all_contents s @ window_contents s' (nsubjects s)"
proof -
  have "map (window_contents s') [0..<nsubjects s] = map (window_contents s) [0..<nsubjects s]"
    using assms(2) by simp
  then have "concat (map (window_contents s') [0..<nsubjects s]) =
      concat (map (window_contents s) [0..<nsubjects s])"
    by (rule arg_cong)
  then show ?thesis
    by (simp add: all_contents_def assms(1) del: map_eq_conv)
qed

lemma all_contents_last:
  assumes "nsubjects s' = nsubjects s" and "0 < nsubjects s"
    and "\<forall>w<nsubjects s - 1. window_contents s' w = window_contents s w"
    and "window_contents s' (nsubjects s - 1) = window_contents s (nsubjects s - 1) @ vs"
  shows "all_contents s' = all_contents s @ vs"
proof -
  obtain n where n: "nsubjects s = Suc n"
    using assms(2) by (cases "nsubjects s") simp_all
  have "map (window_contents s') [0..<n] = map (window_contents s) [0..<n]"
    using assms(3) n by simp
  then have "concat (map (window_contents s') [0..<n]) = concat (map (window_contents s) [0..<n])"
    by (rule arg_cong)
  then show ?thesis
    using assms(1,4) n by (simp add: all_contents_def del: map_eq_conv)
qed

lemma nexts_Observer_complete: "nexts (received (Observer_complete d)) = nexts (received d)"
  by (simp add: Observer_complete_def nexts_append)

lemma Window_subscribing_ready:
  assumes "window_ready a s"
  shows "window_active (Window_subscribing a s)"
    and "nsubjects (Window_subscribing a s) = Suc (nsubjects s)"
    and "all_contents (Window_subscribing a s) = all_contents s"
    and "closingSelector (Window_subscribing a s) = closingSelector s"
    and "\<not> innerClosed (Window_subscribing a s) (ninners s)"
proof -
  from assms consider
    selector where "a = None" "s = Window_initial Observer_new selector"
    | "a = Some (ninners s - 1)" "window_active s"
    by (auto simp add: window_ready_def)
  then have "window_active (Window_subscribing a s)
      \<and> nsubjects (Window_subscribing a s) = Suc (nsubjects s)
      \<and> all_contents (Window_subscribing a s) = all_contents s
      \<and> closingSelector (Window_subscribing a s) = closingSelector s
      \<and> \<not> innerClosed (Window_subscribing a s) (ninners s)"
  proof cases
    case 1
    show ?thesis
      unfolding 1 Window_subscribing_initial
      by (simp add: window_active_def Window_initial_def all_contents_def window_contents_def
          Observer_new_def window_log_def)
  next
    case 2
    note eq = Window_subscribing_active_eq [OF 2(2)]
    let ?t = "Window_subscribing (Some (ninners s - 1)) s"
    from 2(2) have pos: "0 < nsubjects s" and ipos: "0 < ninners s"
      by (simp_all add: window_active_def)
    note logs = window_active_logs [OF 2(2)]
    have act: "window_active ?t"
      using 2(2) logs window_log_complete [OF logs(1)] unfolding eq
      by (auto simp add: window_active_def window_log_new)
    have n: "nsubjects ?t = Suc (nsubjects s)"
      unfolding eq by simp
    have same: "\<forall>w<nsubjects s. window_contents ?t w = window_contents s w"
      unfolding eq by (simp add: window_contents_def nexts_Observer_complete)
    have new: "window_contents ?t (nsubjects s) = []"
      unfolding eq by (simp add: window_contents_def Observer_new_def)
    from all_contents_Suc [OF n same] new have con: "all_contents ?t = all_contents s"
      by simp
    have sel: "closingSelector ?t = closingSelector s"
      and live: "\<not> innerClosed ?t (ninners s)"
      unfolding eq by simp_all
    from act n con sel live show ?thesis
      unfolding 2(1) by (intro conjI)
  qed
  then show "window_active (Window_subscribing a s)"
    and "nsubjects (Window_subscribing a s) = Suc (nsubjects s)"
    and "all_contents (Window_subscribing a s) = all_contents s"
    and "closingSelector (Window_subscribing a s) = closingSelector s"
    and "\<not> innerClosed (Window_subscribing a s) (ninners s)"
    by simp_all
qed

lemma Window_subscribed_active:
  assumes "window_active s"
  shows "window_active (Window_subscribed w i s)"
    and "nsubjects (Window_subscribed w i s) = nsubjects s"
    and "all_contents (Window_subscribed w i s) = all_contents s"
    and "closingSelector (Window_subscribed w i s) = closingSelector s"
proof -
  from assms have "\<not> closed s" "\<not> stopped (destination s)"
    by (simp_all add: window_active_def)
  then have eq: "Window_subscribed w i s =
      s\<lparr>closingNotification := Some i, children := children s @ [InnerChild i, WindowChild w]\<rparr>"
    by (simp add: Window_subscribed_def Subscription_add_def isUnsubscribed_def)
  show "window_active (Window_subscribed w i s)"
    using assms unfolding eq by (simp add: window_active_def)
  show "nsubjects (Window_subscribed w i s) = nsubjects s"
    and "closingSelector (Window_subscribed w i s) = closingSelector s"
    unfolding eq by simp_all
  have "window_contents (Window_subscribed w i s) = window_contents s"
    unfolding eq by (simp add: fun_eq_iff window_contents_def)
  then show "all_contents (Window_subscribed w i s) = all_contents s"
    unfolding eq by (simp add: all_contents_def)
qed

lemma fires_on_subscription_cases:
  assumes "fires_on_subscription r"
  obtains x ns where "r = Returns (OnNext x # ns)" | ns where "r = Returns (OnComplete # ns)"
  using assms by (cases r rule: fires_on_subscription.cases) simp_all

text \<open>
  A chain of \<open>d\<close> notifiers that fire on subscription, ended by one that does not: the call
  of \<^verbatim>\<open>openWindow\<close> nests \<open>d\<close> deep, returns, and has opened \<open>d + 1\<close> windows.
\<close>

lemma Window_openWindow_chain:
  assumes "window_ready a s"
    and "\<forall>j<d. fires_on_subscription (closingSelector s (nsubjects s + j))"
    and "closingSelector s (nsubjects s + d) = Returns []"
  shows "\<exists>t. (\<forall>depth>d. Window_openWindow depth a s = Some t) \<and> window_active t
       \<and> nsubjects t = nsubjects s + d + 1 \<and> all_contents t = all_contents s
       \<and> closingSelector t = closingSelector s"
  using assms
proof (induction d arbitrary: a s)
  case 0
  note cnt = window_ready_counts [OF "0.prems"(1)]
  note sub = Window_subscribing_ready [OF "0.prems"(1)]
  from "0.prems"(3) cnt have sel: "closingSelector s (selectorCalls s) = Returns []"
    by simp
  let ?t = "Window_subscribed (nsubjects s) (ninners s) (Window_subscribing a s)"
  have "Window_openWindow depth a s = Some ?t" if "0 < depth" for depth
  proof -
    from that obtain dp where dp: "depth = Suc dp"
      by (cases depth) simp_all
    show ?thesis
      unfolding dp Window_openWindow_returns [OF sel] by simp
  qed
  moreover note Window_subscribed_active [OF sub(1), of "nsubjects s" "ninners s"]
  ultimately show ?case
    using sub(2-4) by (intro exI [of _ ?t]) simp
next
  case (Suc d)
  note cnt = window_ready_counts [OF Suc.prems(1)]
  note sub = Window_subscribing_ready [OF Suc.prems(1)]
  let ?s6 = "Window_subscribing a s"
  let ?i = "ninners s"
  from sub(1,2) cnt have i6: "?i = ninners ?s6 - 1"
    by (simp add: window_active_def)
  with sub(1) have ready6: "window_ready (Some ?i) ?s6"
    by (simp add: window_ready_def)
  from Suc.prems(2) have fire0: "fires_on_subscription (closingSelector s (selectorCalls s))"
    using cnt by (metis add.right_neutral zero_less_Suc)
  have chain6: "\<forall>j<d. fires_on_subscription (closingSelector ?s6 (nsubjects ?s6 + j))"
    using Suc.prems(2) sub(2,4) by (metis Suc_less_eq add_Suc_shift)
  have end6: "closingSelector ?s6 (nsubjects ?s6 + d) = Returns []"
    using Suc.prems(3) sub(2,4) by simp
  from Suc.IH [OF ready6 chain6 end6]
  obtain t where t: "\<forall>dp>d. Window_openWindow dp (Some ?i) ?s6 = Some t" "window_active t"
    "nsubjects t = nsubjects ?s6 + d + 1" "all_contents t = all_contents ?s6"
    "closingSelector t = closingSelector ?s6"
    by blast
  from t(2,3) sub(2) cnt have "innerClosed t ?i"
    by (simp add: window_active_def)
  then have idem: "InnerSubscriber_unsubscribe ?i t = t"
    and rest: "\<And>dp ns. subscribeToResult (Window_notifyNext dp) Window_notifyError
        (Window_notifyComplete dp) ns ?i t = Some t"
    by (simp_all add: InnerSubscriber_unsubscribe_idem subscribeToResult_closed)
  let ?r = "Window_subscribed (nsubjects s) ?i t"
  have "Window_openWindow depth a s = Some ?r" if "Suc d < depth" for depth
  proof -
    from that obtain dp where dp: "depth = Suc dp" and ddp: "d < dp"
      by (cases depth) simp_all
    from t(1) ddp have inner: "Window_openWindow dp (Some ?i) ?s6 = Some t"
      by simp
    from fire0 show ?thesis
    proof (cases rule: fires_on_subscription_cases)
      case (1 x ns)
      show ?thesis
        unfolding dp Window_openWindow_returns [OF 1]
        using sub(5) inner rest by (simp add: Window_notifyNext_def)
    next
      case (2 ns)
      show ?thesis
        unfolding dp Window_openWindow_returns [OF 2]
        using sub(5) inner rest idem by (simp add: Window_notifyComplete_def)
    qed
  qed
  moreover note Window_subscribed_active [OF t(2), of "nsubjects s" ?i]
  ultimately show ?case
    using t(3-5) sub(2-4) by (intro exI [of _ ?r]) simp
qed

lemma chain_exists:
  fixes sel :: "nat \<Rightarrow> ('x, 'e) selector_result" and n :: nat
  assumes "\<forall>k. fires_on_subscription (sel k) \<or> sel k = Returns []"
    and "\<forall>k. \<exists>j\<ge>k. sel j = Returns []"
  shows "\<exists>d. (\<forall>j<d. fires_on_subscription (sel (n + j))) \<and> sel (n + d) = Returns []"
proof -
  from assms(2) obtain j where "j \<ge> n" "sel j = Returns []"
    by blast
  then have "sel (n + (j - n)) = Returns []"
    by simp
  then have ex: "\<exists>d. sel (n + d) = Returns []"
    by blast
  let ?d = "LEAST d. sel (n + d) = Returns []"
  from ex have "sel (n + ?d) = Returns []"
    by (rule LeastI_ex)
  moreover have "\<forall>j<?d. fires_on_subscription (sel (n + j))"
  proof (intro allI impI)
    fix j
    assume "j < ?d"
    then have "sel (n + j) \<noteq> Returns []"
      by (rule not_less_Least)
    with assms(1) show "fires_on_subscription (sel (n + j))"
      by blast
  qed
  ultimately show ?thesis by blast
qed

lemma chain_count:
  fixes sel :: "nat \<Rightarrow> ('x, 'e) selector_result" and n :: nat
  assumes "\<forall>j<d. fires_on_subscription (sel (n + j))" and "sel (n + d) = Returns []"
  shows "length (filter (\<lambda>k. fires_on_subscription (sel k)) [n..<n + d + 1]) = d"
proof -
  have "filter (\<lambda>k. fires_on_subscription (sel k)) [n..<n + d] = [n..<n + d]"
    using assms(1) by (auto simp add: filter_id_conv) (metis le_add_diff_inverse nat_add_left_cancel_less)
  then show ?thesis
    using assms(2) by simp
qed

lemma count_split:
  assumes "n \<le> k" and "k \<le> m"
  shows "length (filter P [n..<m]) = length (filter P [n..<k]) + length (filter P [k..<m])"
proof -
  from assms have "[n..<m] = [n..<k] @ [k..<m]"
    by (metis le_add_diff_inverse upt_add_eq_append)
  then show ?thesis by simp
qed

lemma Window_on_notifier_active:
  assumes "window_active s"
    and "\<forall>j<d. fires_on_subscription (closingSelector s (nsubjects s + j))"
    and "closingSelector s (nsubjects s + d) = Returns []"
    and "n = OnNext x \<or> n = OnComplete"
  shows "\<exists>t. (\<forall>depth>d. Window_on depth (FromNotifier n) s = Some t) \<and> window_active t
       \<and> nsubjects t = nsubjects s + d + 1 \<and> all_contents t = all_contents s
       \<and> closingSelector t = closingSelector s"
proof -
  let ?i = "ninners s - 1"
  from assms(1) have pos: "0 < ninners s" and live: "\<not> innerClosed s ?i"
    and cnt: "ninners s = nsubjects s"
    by (simp_all add: window_active_def)
  from assms(1) have "window_ready (Some ?i) s"
    by (simp add: window_ready_def)
  from Window_openWindow_chain [OF this assms(2,3)]
  obtain t where t: "\<forall>depth>d. Window_openWindow depth (Some ?i) s = Some t" "window_active t"
    "nsubjects t = nsubjects s + d + 1" "all_contents t = all_contents s"
    "closingSelector t = closingSelector s"
    by blast
  from t(2,3) cnt pos have "innerClosed t ?i"
    by (simp add: window_active_def)
  then have idem: "InnerSubscriber_unsubscribe ?i t = t"
    by (rule InnerSubscriber_unsubscribe_idem)
  from assms(4) have "\<forall>depth>d. Window_on depth (FromNotifier n) s = Some t"
    using pos live t(1) idem
    by (auto simp add: Window_notifyNext_def Window_notifyComplete_def)
  with t(2-5) show ?thesis by blast
qed

lemma Window_next_active:
  assumes "window_active s"
  shows "Window_source (OnNext v) s =
    s\<lparr>subjects := (subjects s)(nsubjects s - 1 :=
        (subjects s (nsubjects s - 1))
          \<lparr>received := received (subjects s (nsubjects s - 1)) @ [OnNext v]\<rparr>)\<rparr>"
proof -
  from assms have "window s = Some (nsubjects s - 1)" "\<not> closed s" "\<not> stopped (destination s)"
    and "window_log (subjects s (nsubjects s - 1)) False"
    by (simp_all add: window_active_def)
  then show ?thesis
    by (simp add: Subscriber_next_def isUnsubscribed_def Window__next_def Subject_next_def
        Observer_next_def window_log_def)
qed

lemma Window_next_active_props:
  assumes "window_active s"
  shows "window_active (Window_source (OnNext v) s)"
    and "nsubjects (Window_source (OnNext v) s) = nsubjects s"
    and "all_contents (Window_source (OnNext v) s) = all_contents s @ [v]"
    and "closingSelector (Window_source (OnNext v) s) = closingSelector s"
proof -
  note eq = Window_next_active [OF assms]
  let ?t = "Window_source (OnNext v) s"
  from assms have pos: "0 < nsubjects s"
    by (simp add: window_active_def)
  note logs = window_active_logs [OF assms]
  show "window_active ?t"
    using assms logs window_log_next [OF logs(1), of v] unfolding eq
    by (auto simp add: window_active_def)
  show n: "nsubjects ?t = nsubjects s"
    and "closingSelector ?t = closingSelector s"
    unfolding eq by simp_all
  have same: "\<forall>w<nsubjects s - 1. window_contents ?t w = window_contents s w"
    unfolding eq by (simp add: window_contents_def)
  have last: "window_contents ?t (nsubjects s - 1) = window_contents s (nsubjects s - 1) @ [v]"
    unfolding eq by (simp add: window_contents_def nexts_append)
  from all_contents_last [OF n pos same last] show "all_contents ?t = all_contents s @ [v]" .
qed

lemma lifetime_input_cases:
  assumes "lifetime_input i"
  obtains v where "i = FromSource (OnNext v)"
  | x where "i = FromNotifier (OnNext x)"
  | "i = FromNotifier OnComplete"
  using assms by (cases i rule: lifetime_input.cases) simp_all

lemma Window_run_active:
  fixes s :: "('a, 'x, 'e) WindowSubscriber" and "is" :: "('a, 'x, 'e) window_input list"
  assumes "window_active s"
    and "\<forall>k. fires_on_subscription (closingSelector s k) \<or> closingSelector s k = Returns []"
    and "\<forall>k. \<exists>j\<ge>k. closingSelector s j = Returns []"
    and "\<forall>i\<in>set is. lifetime_input i"
  shows "\<exists>D t. (\<forall>depth\<ge>D. Window_run depth s is = Some t) \<and> window_active t
       \<and> closingSelector t = closingSelector s
       \<and> all_contents t = all_contents s @ window_source_values is
       \<and> nsubjects s \<le> nsubjects t
       \<and> nsubjects t = nsubjects s + fires is
           + length (filter (\<lambda>k. fires_on_subscription (closingSelector s k))
               [nsubjects s..<nsubjects t])"
  using assms
proof (induction "is" arbitrary: s)
  case Nil
  show ?case
    using Nil.prems(1) by (intro exI [of _ 0] exI [of _ s]) simp
next
  case (Cons i "is")
  let ?sel = "closingSelector s"
  let ?P = "\<lambda>k. fires_on_subscription (?sel k)"
  from Cons.prems(4) have li: "lifetime_input i" and rest: "\<forall>j\<in>set is. lifetime_input j"
    by simp_all
  have notifier: ?case
    if i: "i = FromNotifier n" and nn: "n = OnNext x \<or> n = OnComplete" for n x
  proof -
    from chain_exists [OF Cons.prems(2,3), of "nsubjects s"]
    obtain d where d: "\<forall>j<d. ?P (nsubjects s + j)" "?sel (nsubjects s + d) = Returns []"
      by blast
    from Window_on_notifier_active [OF Cons.prems(1) d nn]
    obtain t1 where t1: "\<forall>depth>d. Window_on depth (FromNotifier n) s = Some t1"
      "window_active t1" "nsubjects t1 = nsubjects s + d + 1" "all_contents t1 = all_contents s"
      "closingSelector t1 = ?sel"
      by blast
    from Cons.prems(2,3) t1(5)
    have sel1: "\<forall>k. fires_on_subscription (closingSelector t1 k) \<or> closingSelector t1 k = Returns []"
      "\<forall>k. \<exists>j\<ge>k. closingSelector t1 j = Returns []"
      by simp_all
    from Cons.IH [OF t1(2) sel1 rest]
    obtain D t where t: "\<forall>depth\<ge>D. Window_run depth t1 is = Some t" "window_active t"
      "closingSelector t = closingSelector t1"
      "all_contents t = all_contents t1 @ window_source_values is"
      "nsubjects t1 \<le> nsubjects t"
      "nsubjects t = nsubjects t1 + fires is
         + length (filter (\<lambda>k. fires_on_subscription (closingSelector t1 k))
             [nsubjects t1..<nsubjects t])"
      by blast
    have run: "\<forall>depth\<ge>max D (Suc d). Window_run depth s (i # is) = Some t"
      using t1(1) t(1) by (simp add: i)
    have cnt1: "length (filter ?P [nsubjects s..<nsubjects t1]) = d"
      unfolding t1(3) by (rule chain_count [OF d])
    have "length (filter ?P [nsubjects s..<nsubjects t]) =
        length (filter ?P [nsubjects s..<nsubjects t1]) + length (filter ?P [nsubjects t1..<nsubjects t])"
      by (rule count_split) (use t1(3) t(5) in simp_all)
    with cnt1 t(6) t1(3,5) have n: "nsubjects t = nsubjects s + fires (i # is)
        + length (filter ?P [nsubjects s..<nsubjects t])"
      by (simp add: i)
    have c: "all_contents t = all_contents s @ window_source_values (i # is)"
      using t(4) t1(4) by (simp add: i)
    from t1(3) t(5) have le: "nsubjects s \<le> nsubjects t"
      by simp
    from run t(2) t(3) t1(5) c le n show ?thesis
      by (intro exI [of _ "max D (Suc d)"] exI [of _ t]) simp
  qed
  from li show ?case
  proof (cases rule: lifetime_input_cases)
    case (1 v)
    let ?t1 = "Window_source (OnNext v) s"
    note p = Window_next_active_props [OF Cons.prems(1), of v]
    from Cons.prems(2,3) p(4)
    have sel1: "\<forall>k. fires_on_subscription (closingSelector ?t1 k) \<or> closingSelector ?t1 k = Returns []"
      "\<forall>k. \<exists>j\<ge>k. closingSelector ?t1 j = Returns []"
      by simp_all
    from Cons.IH [OF p(1) sel1 rest]
    obtain D t where t: "\<forall>depth\<ge>D. Window_run depth ?t1 is = Some t" "window_active t"
      "closingSelector t = closingSelector ?t1"
      "all_contents t = all_contents ?t1 @ window_source_values is"
      "nsubjects ?t1 \<le> nsubjects t"
      "nsubjects t = nsubjects ?t1 + fires is
         + length (filter (\<lambda>k. fires_on_subscription (closingSelector ?t1 k))
             [nsubjects ?t1..<nsubjects t])"
      by blast
    have run: "\<forall>depth\<ge>D. Window_run depth s (i # is) = Some t"
      using t(1) by (simp add: 1)
    from run t(2-6) show ?thesis
      unfolding p(2-4) by (intro exI [of _ D] exI [of _ t]) (simp add: 1)
  next
    case (2 x)
    show ?thesis
      by (rule notifier [OF 2]) simp
  next
    case 3
    show ?thesis
      by (rule notifier [OF 3]) simp
  qed
qed



lemma fold_dispose_frame:
  "destination (fold Subscription_dispose cs s) = destination s
   \<and> closed (fold Subscription_dispose cs s) = closed s
   \<and> nsubjects (fold Subscription_dispose cs s) = nsubjects s
   \<and> window (fold Subscription_dispose cs s) = window s
   \<and> ninners (fold Subscription_dispose cs s) = ninners s
   \<and> closingNotification (fold Subscription_dispose cs s) = closingNotification s
   \<and> closingSelector (fold Subscription_dispose cs s) = closingSelector s
   \<and> selectorCalls (fold Subscription_dispose cs s) = selectorCalls s"
proof (induction cs arbitrary: s)
  case Nil
  then show ?case by simp
next
  case (Cons c cs)
  show ?case
    by (cases c)
      (simp_all add: Cons.IH InnerSubscriber_unsubscribe_def Subject_unsubscribe_def)
qed

lemma fold_dispose_subjects:
  "subjects (fold Subscription_dispose cs s) w =
     (if WindowChild w \<in> set cs then Observer_unsubscribe (subjects s w) else subjects s w)"
proof (induction cs arbitrary: s)
  case Nil
  then show ?case by simp
next
  case (Cons c cs)
  show ?case
    by (cases c)
      (simp_all add: Cons.IH InnerSubscriber_unsubscribe_def Subject_unsubscribe_def
        Observer_unsubscribe_def)
qed

lemma fold_dispose_innerClosed:
  "innerClosed (fold Subscription_dispose cs s) i = (innerClosed s i \<or> InnerChild i \<in> set cs)"
proof (induction cs arbitrary: s)
  case Nil
  then show ?case by simp
next
  case (Cons c cs)
  show ?case
    by (cases c)
      (auto simp add: Cons.IH InnerSubscriber_unsubscribe_def Subject_unsubscribe_def)
qed

lemma Window_unsubscribe_frame:
  "destination (Window_unsubscribe s) = destination s
   \<and> nsubjects (Window_unsubscribe s) = nsubjects s
   \<and> received (subjects (Window_unsubscribe s) w) = received (subjects s w)
   \<and> (stopped (subjects s w) \<longrightarrow> subjects (Window_unsubscribe s) w = subjects s w)
   \<and> (innerClosed s i \<longrightarrow> innerClosed (Window_unsubscribe s) i)"
  by (simp add: Window_unsubscribe_def fold_dispose_frame fold_dispose_subjects
      fold_dispose_innerClosed Observer_unsubscribe_def)

lemma Window_source_complete_open:
  assumes "\<not> isUnsubscribed s" and "window s = Some w"
  shows "Window_source OnComplete s =
    Window_unsubscribe (Window_unsubscribeClosingNotification
      (s\<lparr>subjects := (subjects s)(w := Observer_complete (subjects s w)),
         destination := Observer_complete (destination s)\<rparr>))"
  using assms
  by (simp add: Subscriber_complete_def Window__complete_def Let_def Subject_complete_def)


lemma Window_unsubscribeClosingNotification_frame:
  "destination (Window_unsubscribeClosingNotification s) = destination s
   \<and> subjects (Window_unsubscribeClosingNotification s) = subjects s
   \<and> nsubjects (Window_unsubscribeClosingNotification s) = nsubjects s
   \<and> (closingNotification s = Some i \<longrightarrow> innerClosed (Window_unsubscribeClosingNotification s) i)"
  by (simp add: Window_unsubscribeClosingNotification_def InnerSubscriber_unsubscribe_def
      split: option.splits)

lemma Window_on_dead:
  "isUnsubscribed s \<Longrightarrow> ninners s = 0 \<Longrightarrow> Window_on depth i s = Some s"
proof (cases i)
  case (FromSource n)
  assume "isUnsubscribed s"
  then show ?thesis
    unfolding FromSource
    by (cases n) (simp_all add: Subscriber_next_def Subscriber_error_def Subscriber_complete_def)
next
  case (FromNotifier n)
  assume "ninners s = 0"
  then show ?thesis
    unfolding FromNotifier by simp
qed

lemma Window_run_dead:
  "isUnsubscribed s \<Longrightarrow> ninners s = 0 \<Longrightarrow> Window_run depth s is = Some s"
  by (induction "is") (simp_all add: Window_on_dead)

text \<open>
  C3. When the first call of the selector throws, the constructor returns (at any depth of
  nesting), the destination has received the first window and then the error, the first
  window has received the error and nothing else, only that one window exists and the
  selector has been called once; and no later delivery, from the source or from a
  notifier, changes anything: no further window is opened.
\<close>

theorem WindowWhen_selector_throws_first:
  fixes selector :: "nat \<Rightarrow> ('x, 'e) selector_result"
  assumes "selector 0 = Throws err"
  shows "\<exists>s :: ('a, 'x, 'e) WindowSubscriber.
           (\<forall>depth. WindowSubscriber_new (Suc depth) Observer_new selector = Some s)
         \<and> received (destination s) = [OnNext 0, OnError err]
         \<and> received (subjects s 0) = [OnError err]
         \<and> nsubjects s = 1
         \<and> selectorCalls s = 1
         \<and> (\<forall>depth. \<forall>is :: ('a, 'x, 'e) window_input list. Window_run depth s is = Some s)"
proof -
  let ?s = "(Window_initial Observer_new selector :: ('a, 'x, 'e) WindowSubscriber)
      \<lparr>subjects := (\<lambda>_. Observer_new)(0 := \<lparr>received = [OnError err], stopped = True\<rparr>),
       nsubjects := 1, window := Some 0,
       destination := \<lparr>received = [OnNext 0, OnError err], stopped = True\<rparr>,
       selectorCalls := 1\<rparr>"
  have new: "\<forall>depth. WindowSubscriber_new (Suc depth) Observer_new selector = Some ?s"
    using assms
    by (simp add: WindowSubscriber_new_def Window_initial_def Let_def Observer_new_def
        Observer_next_def Observer_error_def Subject_error_def)
  have dead: "isUnsubscribed ?s" "ninners ?s = 0"
    by (simp_all add: isUnsubscribed_def Window_initial_def)
  then have run: "\<forall>depth. \<forall>is :: ('a, 'x, 'e) window_input list. Window_run depth ?s is = Some ?s"
    by (simp add: Window_run_dead)
  have fields: "received (destination ?s) = [OnNext 0, OnError err]"
    "received (subjects ?s 0) = [OnError err]" "nsubjects ?s = 1" "selectorCalls ?s = 1"
    by simp_all
  from new fields run show ?thesis
    by (intro exI [of _ ?s] conjI)
qed

theorem WindowWhen_selector_throws_first_witness:
  "\<exists>s :: (int, unit, string) WindowSubscriber.
      WindowSubscriber_new 1 Observer_new (\<lambda>k. if k = 0 then Throws ''boom'' else Returns []) = Some s
    \<and> received (destination s) = [OnNext 0, OnError ''boom'']
    \<and> received (subjects s 0) = [OnError ''boom'']
    \<and> Window_run 3 s [FromSource (OnNext 1), FromNotifier (OnNext ()), FromSource OnComplete] = Some s"
proof -
  have 1: "(\<lambda>k::nat. if k = 0 then Throws ''boom'' else (Returns [] :: (unit, string) selector_result)) 0
      = Throws ''boom''"
    by simp
  from WindowWhen_selector_throws_first
    [where selector = "\<lambda>k. if k = 0 then Throws ''boom'' else (Returns [] :: (unit, string) selector_result)"
      and err = "''boom''" and 'a = int, OF 1]
  obtain s :: "(int, unit, string) WindowSubscriber" where
    s: "\<forall>depth. WindowSubscriber_new (Suc depth) Observer_new
          (\<lambda>k. if k = 0 then Throws ''boom'' else (Returns [] :: (unit, string) selector_result)) = Some s"
      "received (destination s) = [OnNext 0, OnError ''boom'']"
      "received (subjects s 0) = [OnError ''boom'']"
      "\<forall>depth. \<forall>is :: (int, unit, string) window_input list. Window_run depth s is = Some s"
    by blast
  from s(1) have "WindowSubscriber_new (Suc 0) Observer_new
      (\<lambda>k. if k = 0 then Throws ''boom'' else (Returns [] :: (unit, string) selector_result)) = Some s"
    by (rule spec)
  moreover from s(4) have "Window_run 3 s
      [FromSource (OnNext 1), FromNotifier (OnNext ()), FromSource OnComplete] = Some s"
    by blast
  ultimately show ?thesis
    using s(2,3) by (intro exI [of _ s]) simp
qed



lemma Window_subscribing_inners:
  "ninners (Window_subscribing a s) = Suc (ninners s)"
  "innerClosed (Window_subscribing a s) j =
     (j \<noteq> ninners s \<and> (innerClosed s j \<or> a = Some j))"
  "closingSelector (Window_subscribing a s) = closingSelector s"
  "selectorCalls (Window_subscribing a s) = Suc (selectorCalls s)"
  by (auto simp add: Window_subscribing_def Let_def InnerSubscriber_unsubscribe_def
      Subscription_remove_def Subject_complete_def split: option.splits)

lemma Window_subscribed_inners:
  "ninners (Window_subscribed w i s) = ninners s"
  "innerClosed s j \<Longrightarrow> innerClosed (Window_subscribed w i s) j"
  by (auto simp add: Window_subscribed_def Subscription_add_def InnerSubscriber_unsubscribe_def
      Subject_unsubscribe_def)

lemma Window__error_inners:
  "ninners (Window__error err s) = ninners s"
  "innerClosed s j \<Longrightarrow> innerClosed (Window__error err s) j"
  by (auto simp add: Window__error_def Let_def Subject_error_def
      Window_unsubscribeClosingNotification_def InnerSubscriber_unsubscribe_def
      split: option.splits)

lemma Window_openWindow_throws:
  assumes "closingSelector s (selectorCalls s) = Throws err"
    and "Window_openWindow (Suc depth) a s = Some t"
  shows "ninners t = ninners s"
    and "innerClosed t j = (innerClosed s j \<or> a = Some j)"
  using assms
  by (auto simp add: Let_def InnerSubscriber_unsubscribe_def Subscription_remove_def
      Subject_complete_def Subject_error_def split: option.splits)

text \<open>
  Whatever a call of \<^verbatim>\<open>openWindow\<close> does, the inner subscriptions that exist stay as many
  or more, those that were closed stay closed, and the one it was called for is closed.
\<close>

lemma subscribeToResult_inners:
  fixes s t :: "('a, 'x, 'e) WindowSubscriber"
  assumes IH: "\<And>a (s :: ('a, 'x, 'e) WindowSubscriber) t. Window_openWindow dp a s = Some t \<Longrightarrow>
      ninners s \<le> ninners t \<and> (\<forall>j<ninners s. innerClosed s j \<or> a = Some j \<longrightarrow> innerClosed t j)"
    and "subscribeToResult (Window_notifyNext dp) Window_notifyError (Window_notifyComplete dp)
      ns i s = Some t"
  shows "ninners s \<le> ninners t \<and> (\<forall>j<ninners s. innerClosed s j \<longrightarrow> innerClosed t j)"
  using assms(2)
proof (induction ns arbitrary: s)
  case Nil
  then show ?case by simp
next
  case (Cons n ns)
  from Cons.prems obtain u where
    u: "InnerSubscriber_on (Window_notifyNext dp) Window_notifyError (Window_notifyComplete dp) n i s
        = Some u"
    and rest: "subscribeToResult (Window_notifyNext dp) Window_notifyError
        (Window_notifyComplete dp) ns i u = Some t"
    by (auto split: option.splits)
  have step: "ninners s \<le> ninners u \<and> (\<forall>j<ninners s. innerClosed s j \<longrightarrow> innerClosed u j)"
  proof (cases "innerClosed s i")
    case True
    with u show ?thesis by (cases n) simp_all
  next
    case False
    show ?thesis
    proof (cases n)
      case (OnNext x)
      with u False have "Window_openWindow dp (Some i) s = Some u"
        by (simp add: Window_notifyNext_def)
      from IH [OF this] show ?thesis by blast
    next
      case (OnError err)
      with u False have "u = InnerSubscriber_unsubscribe i (Window__error err s)"
        by (auto simp add: Window_notifyError_def)
      then show ?thesis
        by (simp add: InnerSubscriber_unsubscribe_def Window__error_inners)
    next
      case OnComplete
      with u False obtain u' where u': "Window_openWindow dp (Some i) s = Some u'"
        and "u = InnerSubscriber_unsubscribe i u'"
        by (auto simp add: Window_notifyComplete_def)
      from IH [OF u'] \<open>u = InnerSubscriber_unsubscribe i u'\<close> show ?thesis
        by (simp add: InnerSubscriber_unsubscribe_def)
    qed
  qed
  from Cons.IH [OF rest] step show ?case
    by (meson le_trans less_le_trans)
qed

lemma Window_openWindow_inners:
  "Window_openWindow depth a s = Some t \<Longrightarrow>
   ninners s \<le> ninners t \<and> (\<forall>j<ninners s. innerClosed s j \<or> a = Some j \<longrightarrow> innerClosed t j)"
proof (induction depth arbitrary: a s t)
  case 0
  then show ?case by simp
next
  case (Suc dp)
  show ?case
  proof (cases "closingSelector s (selectorCalls s)")
    case (Throws err)
    from Window_openWindow_throws [OF Throws Suc.prems] show ?thesis
      by simp
  next
    case (Returns pushed)
    let ?s6 = "Window_subscribing a s"
    from Suc.prems obtain s7 where
      s7: "subscribeToResult (Window_notifyNext dp) Window_notifyError (Window_notifyComplete dp)
          pushed (ninners s) ?s6 = Some s7"
      and t: "t = Window_subscribed (nsubjects s) (ninners s) s7"
      unfolding Window_openWindow_returns [OF Returns] by (auto split: option.splits)
    from subscribeToResult_inners [OF Suc.IH s7]
    have f7: "ninners ?s6 \<le> ninners s7" "\<forall>j<ninners ?s6. innerClosed ?s6 j \<longrightarrow> innerClosed s7 j"
      by simp_all
    show ?thesis
      unfolding t using f7
      by (auto simp add: Window_subscribing_inners Window_subscribed_inners)
  qed
qed

lemma Window_openWindow_never_returns:
  "\<forall>k\<ge>selectorCalls s. fires_on_subscription (closingSelector s k) \<Longrightarrow>
   Window_openWindow depth a s = None"
proof (induction depth arbitrary: a s)
  case 0
  then show ?case by simp
next
  case (Suc dp)
  let ?s6 = "Window_subscribing a s"
  from Suc.prems have "\<forall>k\<ge>selectorCalls ?s6. fires_on_subscription (closingSelector ?s6 k)"
    by (simp add: Window_subscribing_inners)
  then have inner: "Window_openWindow dp (Some (ninners s)) ?s6 = None"
    by (rule Suc.IH)
  have live: "\<not> innerClosed ?s6 (ninners s)"
    by (simp add: Window_subscribing_inners)
  from Suc.prems have "fires_on_subscription (closingSelector s (selectorCalls s))"
    by simp
  then show ?case
  proof (cases rule: fires_on_subscription_cases)
    case (1 x ns)
    show ?thesis
      unfolding Window_openWindow_returns [OF 1]
      using live inner by (simp add: Window_notifyNext_def)
  next
    case (2 ns)
    show ?thesis
      unfolding Window_openWindow_returns [OF 2]
      using live inner by (simp add: Window_notifyComplete_def)
  qed
qed

lemma WindowSubscriber_new_initial:
  "WindowSubscriber_new depth d selector = Window_openWindow depth None (Window_initial d selector)"
  by (simp add: WindowSubscriber_new_def)

lemma Window_initial_fields:
  "nsubjects (Window_initial d selector) = 0"
  "closingSelector (Window_initial d selector) = selector"
  "selectorCalls (Window_initial d selector) = 0"
  "all_contents (Window_initial d selector) = []"
  by (simp_all add: Window_initial_def all_contents_def)

lemma window_active_complete_contents:
  assumes "window_active s"
  shows "all_contents (Window_source OnComplete s) = all_contents s"
proof -
  from assms have op: "\<not> isUnsubscribed s" and win: "window s = Some (nsubjects s - 1)"
    by (simp_all add: window_active_def isUnsubscribed_def)
  note eq = Window_source_complete_open [OF op win]
  have wc: "window_contents (Window_source OnComplete s) = window_contents s"
  proof (rule ext)
    fix w
    show "window_contents (Window_source OnComplete s) w = window_contents s w"
      unfolding eq
      by (simp add: window_contents_def Window_unsubscribe_frame
          Window_unsubscribeClosingNotification_frame nexts_Observer_complete)
  qed
  have nc: "nsubjects (Window_source OnComplete s) = nsubjects s"
    unfolding eq
    by (simp add: Window_unsubscribe_frame Window_unsubscribeClosingNotification_frame)
  show ?thesis
    unfolding all_contents_def wc nc ..
qed

text \<open>
  What subscription and a run of lifetime deliveries lead to, for a selector that neither
  throws nor returns a notifier that fails on subscription, and that does not return
  notifiers firing on subscription for ever.
\<close>

lemma WindowWhen_run_active:
  fixes "is" :: "('a, 'x, 'e) window_input list" and selector :: "nat \<Rightarrow> ('x, 'e) selector_result"
  assumes "\<forall>k. fires_on_subscription (selector k) \<or> selector k = Returns []"
    and "\<forall>k. \<exists>j\<ge>k. selector j = Returns []"
    and "\<forall>i\<in>set is. lifetime_input i"
  shows "\<exists>D. \<exists>s :: ('a, 'x, 'e) WindowSubscriber.
      (\<forall>depth\<ge>D. WindowWhen_run depth selector is = Some s) \<and> window_active s
      \<and> all_contents s = window_source_values is
      \<and> nsubjects s = fires is
          + length (filter (\<lambda>k. fires_on_subscription (selector k)) [0..<nsubjects s]) + 1"
proof -
  let ?P = "\<lambda>k. fires_on_subscription (selector k)"
  let ?s0 = "Window_initial Observer_new selector :: ('a, 'x, 'e) WindowSubscriber"
  have ready: "window_ready None ?s0"
    by (auto simp add: window_ready_def)
  from chain_exists [OF assms(1,2), of 0]
  obtain d where d: "\<forall>j<d. ?P (0 + j)" "selector (0 + d) = Returns []"
    by blast
  then have d': "\<forall>j<d. fires_on_subscription (closingSelector ?s0 (nsubjects ?s0 + j))"
    "closingSelector ?s0 (nsubjects ?s0 + d) = Returns []"
    by (simp_all add: Window_initial_fields)
  from Window_openWindow_chain [OF ready d']
  obtain s1 where s1: "\<forall>depth>d. Window_openWindow depth None ?s0 = Some s1" "window_active s1"
    "nsubjects s1 = d + 1" "all_contents s1 = []" "closingSelector s1 = selector"
    by (auto simp add: Window_initial_fields)
  from assms(1,2) s1(5)
  have sel1: "\<forall>k. fires_on_subscription (closingSelector s1 k) \<or> closingSelector s1 k = Returns []"
    "\<forall>k. \<exists>j\<ge>k. closingSelector s1 j = Returns []"
    by simp_all
  from Window_run_active [OF s1(2) sel1 assms(3)]
  obtain D s where s: "\<forall>depth\<ge>D. Window_run depth s1 is = Some s" "window_active s"
    "all_contents s = all_contents s1 @ window_source_values is"
    "nsubjects s1 \<le> nsubjects s"
    "nsubjects s = nsubjects s1 + fires is + length (filter ?P [nsubjects s1..<nsubjects s])"
    unfolding s1(5) by blast
  have run: "\<forall>depth\<ge>max D (Suc d). WindowWhen_run depth selector is = Some s"
    using s1(1) s(1) by (simp add: WindowWhen_run_def WindowSubscriber_new_initial)
  have "length (filter ?P [0..<0 + d + 1]) = d"
    by (rule chain_count [OF d])
  moreover have "length (filter ?P [0..<nsubjects s]) =
      length (filter ?P [0..<nsubjects s1]) + length (filter ?P [nsubjects s1..<nsubjects s])"
    by (rule count_split) (use s(4) in simp_all)
  ultimately have n: "nsubjects s = fires is + length (filter ?P [0..<nsubjects s]) + 1"
    using s(5) s1(3) by simp
  from run s(2) s(3) s1(4) n show ?thesis
    by (intro exI [of _ "max D (Suc d)"] exI [of _ s]) simp
qed

text \<open>
  C1. Let the selector never throw and its notifiers never fail on subscription, let it not
  return notifiers that fire on subscription for ever (so that the firings are finitely
  many), and let the deliveries be source values and firings of the closing notifier (a
  value or its completion), in any order. Call \<open>N\<close> the number of firings: those delivered,
  and those of the notifiers that fired while they were being subscribed. Then subscription
  and the deliveries return, and the outer destination has received exactly the \<open>N + 1\<close>
  window references 0, ..., N, in this order; the window \<open>N\<close> is the current one and the only
  one open; every earlier window holds its values followed by its completion; a further
  source value is appended to the current window and changes nothing else; and the
  contents of the windows, concatenated in the order the windows were emitted, are the
  source values in the order they came, also after the source has completed.
\<close>

theorem WindowWhen_partitions_source:
  fixes "is" :: "('a, 'x, 'e) window_input list" and selector :: "nat \<Rightarrow> ('x, 'e) selector_result"
  assumes "\<forall>k. fires_on_subscription (selector k) \<or> selector k = Returns []"
    and "\<forall>k. \<exists>j\<ge>k. selector j = Returns []"
    and "\<forall>i\<in>set is. lifetime_input i"
  shows "\<exists>D. \<exists>s :: ('a, 'x, 'e) WindowSubscriber.
      (\<forall>depth\<ge>D. WindowWhen_run depth selector is = Some s)
    \<and> (let N = fires is
              + length (filter (\<lambda>k. fires_on_subscription (selector k)) [0..<selectorCalls s])
       in received (destination s) = map OnNext [0..<N + 1]
        \<and> nsubjects s = N + 1
        \<and> selectorCalls s = N + 1
        \<and> window s = Some N
        \<and> (\<forall>w<nsubjects s. stopped (subjects s w) = (w \<noteq> N))
        \<and> (\<forall>w<N. received (subjects s w) = map OnNext (window_contents s w) @ [OnComplete])
        \<and> received (subjects s N) = map OnNext (window_contents s N)
        \<and> (\<forall>v. Window_source (OnNext v) s =
              s\<lparr>subjects := (subjects s)
                   (N := (subjects s N)\<lparr>received := received (subjects s N) @ [OnNext v]\<rparr>)\<rparr>)
        \<and> all_contents s = window_source_values is
        \<and> all_contents (Window_source OnComplete s) = window_source_values is)"
proof -
  from WindowWhen_run_active [OF assms]
  obtain D and s :: "('a, 'x, 'e) WindowSubscriber" where
    run: "\<forall>depth\<ge>D. WindowWhen_run depth selector is = Some s"
    and act: "window_active s"
    and con: "all_contents s = window_source_values is"
    and n: "nsubjects s = fires is
        + length (filter (\<lambda>k. fires_on_subscription (selector k)) [0..<nsubjects s]) + 1"
    by blast
  let ?N = "fires is
      + length (filter (\<lambda>k. fires_on_subscription (selector k)) [0..<selectorCalls s])"
  from act have calls: "selectorCalls s = nsubjects s"
    by (simp add: window_active_def)
  with n have ns: "nsubjects s = ?N + 1"
    by simp
  then have last: "nsubjects s - 1 = ?N"
    by simp
  from ns calls have calls': "selectorCalls s = ?N + 1"
    by simp
  from act have rcv: "received (destination s) = map OnNext [0..<?N + 1]"
    unfolding ns [symmetric] by (simp add: window_active_def)
  from act have win: "window s = Some ?N"
    unfolding last [symmetric] by (simp add: window_active_def)
  note logs = window_active_logs [OF act, unfolded last]
  have one: "\<forall>w<nsubjects s. stopped (subjects s w) = (w \<noteq> ?N)"
  proof (intro allI impI)
    fix w
    assume "w < nsubjects s"
    with ns have "w < ?N \<or> w = ?N"
      by auto
    with logs show "stopped (subjects s w) = (w \<noteq> ?N)"
      by (auto simp add: window_log_def)
  qed
  have old: "\<forall>w<?N. received (subjects s w) = map OnNext (window_contents s w) @ [OnComplete]"
  proof (intro allI impI)
    fix w
    assume "w < ?N"
    with logs(2) have "window_log (subjects s w) True"
      by blast
    then show "received (subjects s w) = map OnNext (window_contents s w) @ [OnComplete]"
      unfolding window_contents_def by (rule window_log_completed)
  qed
  have cur: "received (subjects s ?N) = map OnNext (window_contents s ?N)"
    unfolding window_contents_def using logs(1) by (rule window_log_open)
  have nxt: "\<forall>v. Window_source (OnNext v) s =
      s\<lparr>subjects := (subjects s)
           (?N := (subjects s ?N)\<lparr>received := received (subjects s ?N) @ [OnNext v]\<rparr>)\<rparr>"
    using Window_next_active [OF act] unfolding last by simp
  have fin: "all_contents (Window_source OnComplete s) = window_source_values is"
    using window_active_complete_contents [OF act] con by simp
  from rcv ns calls' win one old cur nxt con fin
  have "let N = ?N
       in received (destination s) = map OnNext [0..<N + 1]
        \<and> nsubjects s = N + 1
        \<and> selectorCalls s = N + 1
        \<and> window s = Some N
        \<and> (\<forall>w<nsubjects s. stopped (subjects s w) = (w \<noteq> N))
        \<and> (\<forall>w<N. received (subjects s w) = map OnNext (window_contents s w) @ [OnComplete])
        \<and> received (subjects s N) = map OnNext (window_contents s N)
        \<and> (\<forall>v. Window_source (OnNext v) s =
              s\<lparr>subjects := (subjects s)
                   (N := (subjects s N)\<lparr>received := received (subjects s N) @ [OnNext v]\<rparr>)\<rparr>)
        \<and> all_contents s = window_source_values is
        \<and> all_contents (Window_source OnComplete s) = window_source_values is"
    unfolding Let_def by (intro conjI)
  with run show ?thesis
    by blast
qed

theorem WindowWhen_partitions_source_witness:
  "\<exists>D. \<exists>s :: (int, unit, string) WindowSubscriber.
     (\<forall>depth\<ge>D. WindowWhen_run depth
        (\<lambda>k. if k = 0 then Returns [OnNext (), OnComplete] else Returns [])
        [FromSource (OnNext 1), FromNotifier OnComplete, FromSource (OnNext 2)] = Some s)
   \<and> received (destination s) = [OnNext 0, OnNext 1, OnNext 2]
   \<and> nsubjects s = 3
   \<and> all_contents s = [1, 2]"
proof -
  let ?sel = "\<lambda>k::nat. if k = 0 then Returns [OnNext (), OnComplete]
    else (Returns [] :: (unit, string) selector_result)"
  let ?is = "[FromSource (OnNext 1), FromNotifier OnComplete, FromSource (OnNext 2)]
    :: (int, unit, string) window_input list"
  have 1: "\<forall>k. fires_on_subscription (?sel k) \<or> ?sel k = Returns []"
    by simp
  have 2: "\<forall>k. \<exists>j\<ge>k. ?sel j = Returns []"
  proof
    fix k :: nat
    have "Suc k \<ge> k \<and> ?sel (Suc k) = Returns []"
      by simp
    then show "\<exists>j\<ge>k. ?sel j = Returns []"
      by blast
  qed
  have 3: "\<forall>i\<in>set ?is. lifetime_input i"
    by simp
  have count: "length (filter (\<lambda>k. fires_on_subscription (?sel k)) [0..<Suc m]) = 1" for m
  proof -
    have "filter (\<lambda>k. fires_on_subscription (?sel k)) [Suc 0..<Suc m] = []"
      by (simp add: filter_empty_conv)
    then show ?thesis
      by (simp add: upt_conv_Cons)
  qed
  from WindowWhen_partitions_source [OF 1 2 3, unfolded Let_def]
  obtain D and s :: "(int, unit, string) WindowSubscriber" where
    run: "\<forall>depth\<ge>D. WindowWhen_run depth ?sel ?is = Some s"
    and rcv: "received (destination s) = map OnNext [0..<fires ?is
        + length (filter (\<lambda>k. fires_on_subscription (?sel k)) [0..<selectorCalls s]) + 1]"
    and ns: "nsubjects s = fires ?is
        + length (filter (\<lambda>k. fires_on_subscription (?sel k)) [0..<selectorCalls s]) + 1"
    and calls: "selectorCalls s = fires ?is
        + length (filter (\<lambda>k. fires_on_subscription (?sel k)) [0..<selectorCalls s]) + 1"
    and con: "all_contents s = window_source_values ?is"
    by blast
  from calls obtain m where m: "selectorCalls s = Suc m"
    by (cases "selectorCalls s") simp_all
  have N: "fires ?is
      + length (filter (\<lambda>k. fires_on_subscription (?sel k)) [0..<selectorCalls s]) + 1 = 3"
    unfolding m count by simp
  have u: "[0..<3] = [0, 1, 2 :: nat]"
    by (simp add: upt_rec)
  from rcv have rcv': "received (destination s) = [OnNext 0, OnNext 1, OnNext 2]"
    unfolding N u by simp
  from ns have ns': "nsubjects s = 3"
    unfolding N .
  from con have con': "all_contents s = [1, 2]"
    by simp
  from run rcv' ns' con' show ?thesis
    by blast
qed

lemma fires_replicate: "fires (replicate n (FromNotifier m)) = n"
  by (induction n) simp_all

lemma window_source_values_replicate:
  "window_source_values (replicate n (FromNotifier m)) = []"
  by (induction n) simp_all

lemma window_active_empty_logs:
  assumes "window_active s" and "all_contents s = []"
  shows "\<forall>w<nsubjects s - 1. received (subjects s w) = [OnComplete]"
    and "received (subjects s (nsubjects s - 1)) = []"
proof -
  from assms(1) have pos: "0 < nsubjects s"
    by (simp add: window_active_def)
  from assms(2) have empty: "\<forall>w<nsubjects s. nexts (received (subjects s w)) = []"
    by (simp add: all_contents_def window_contents_def)
  note logs = window_active_logs [OF assms(1)]
  show "\<forall>w<nsubjects s - 1. received (subjects s w) = [OnComplete]"
  proof (intro allI impI)
    fix w
    assume w: "w < nsubjects s - 1"
    with logs(2) have "window_log (subjects s w) True"
      by blast
    from window_log_completed [OF this] empty w show "received (subjects s w) = [OnComplete]"
      by simp
  qed
  from window_log_open [OF logs(1)] empty pos show "received (subjects s (nsubjects s - 1)) = []"
    by simp
qed

lemma InnerSubscriber_on_value_as_completion:
  fixes s :: "('a, 'x, 'e) WindowSubscriber"
  assumes "i < ninners s"
  shows "InnerSubscriber_on (Window_notifyNext depth) Window_notifyError
           (Window_notifyComplete depth) (OnNext x) i s =
         InnerSubscriber_on (Window_notifyNext depth) Window_notifyError
           (Window_notifyComplete depth) OnComplete i s"
proof (cases "Window_openWindow depth (Some i) s")
  case None
  then show ?thesis
    by (simp add: Window_notifyNext_def Window_notifyComplete_def)
next
  case (Some t)
  from Window_openWindow_inners [OF Some] assms have "innerClosed t i"
    by simp
  then have "InnerSubscriber_unsubscribe i t = t"
    by (rule InnerSubscriber_unsubscribe_idem)
  with Some show ?thesis
    by (simp add: Window_notifyNext_def Window_notifyComplete_def)
qed

lemma Window_on_completion_cuts:
  fixes s :: "('a, 'x, 'e) WindowSubscriber"
  assumes "\<not> isUnsubscribed s" and "window s = Some w" and "w < nsubjects s"
    and "\<not> stopped (subjects s w)" and "0 < ninners s" and "\<not> innerClosed s (ninners s - 1)"
    and "closingSelector s (selectorCalls s) = Returns []"
  shows "\<exists>t. (\<forall>depth. Window_on (Suc depth) (FromNotifier OnComplete) s = Some t)
       \<and> received (subjects t w) = received (subjects s w) @ [OnComplete]
       \<and> nsubjects t = Suc (nsubjects s)
       \<and> window t = Some (nsubjects s)
       \<and> subjects t (nsubjects s) = Observer_new
       \<and> received (destination t) = received (destination s) @ [OnNext (nsubjects s)]
       \<and> selectorCalls t = Suc (selectorCalls s)"
proof -
  let ?i = "ninners s - 1"
  let ?s6 = "Window_subscribing (Some ?i) s"
  let ?t = "Window_subscribed (nsubjects s) (ninners s) ?s6"
  from assms(1) have op: "\<not> closed s" "\<not> stopped (destination s)"
    by (simp_all add: isUnsubscribed_def)
  have s6: "?s6 =
    s\<lparr>children := removeAll (InnerChild ?i) (children s),
      subjects := (subjects s)(w := Observer_complete (subjects s w), nsubjects s := Observer_new),
      nsubjects := Suc (nsubjects s),
      window := Some (nsubjects s),
      destination := (destination s)\<lparr>received := received (destination s) @ [OnNext (nsubjects s)]\<rparr>,
      selectorCalls := Suc (selectorCalls s),
      innerClosed := (innerClosed s)(?i := True, ninners s := False),
      ninners := Suc (ninners s)\<rparr>"
    using assms(2) op
    by (simp add: Window_subscribing_def Let_def InnerSubscriber_unsubscribe_def
        Subscription_remove_def Subject_complete_def Observer_next_def)
  have t: "?t =
    s\<lparr>children := removeAll (InnerChild ?i) (children s)
        @ [InnerChild (ninners s), WindowChild (nsubjects s)],
      subjects := (subjects s)(w := Observer_complete (subjects s w), nsubjects s := Observer_new),
      nsubjects := Suc (nsubjects s),
      window := Some (nsubjects s),
      destination := (destination s)\<lparr>received := received (destination s) @ [OnNext (nsubjects s)]\<rparr>,
      selectorCalls := Suc (selectorCalls s),
      innerClosed := (innerClosed s)(?i := True, ninners s := False),
      ninners := Suc (ninners s),
      closingNotification := Some (ninners s)\<rparr>"
    using op unfolding s6
    by (simp add: Window_subscribed_def Subscription_add_def isUnsubscribed_def)
  from assms(5) have "innerClosed ?s6 ?i"
    by (simp add: Window_subscribing_inners)
  then have "innerClosed ?t ?i"
    by (rule Window_subscribed_inners)
  then have idem: "InnerSubscriber_unsubscribe ?i ?t = ?t"
    by (rule InnerSubscriber_unsubscribe_idem)
  have "\<forall>depth. Window_openWindow (Suc depth) (Some ?i) s = Some ?t"
    by (simp only: Window_openWindow_returns [OF assms(7)] subscribeToResult.simps option.case
        simp_thms)
  then have run: "\<forall>depth. Window_on (Suc depth) (FromNotifier OnComplete) s = Some ?t"
    using assms(5,6) idem
    by (simp add: Window_notifyComplete_def del: Window_openWindow.simps)
  have f1: "received (subjects ?t w) = received (subjects s w) @ [OnComplete]"
    unfolding t using assms(3,4) by (simp add: Observer_complete_def)
  have f2: "nsubjects ?t = Suc (nsubjects s)" "window ?t = Some (nsubjects s)"
    "subjects ?t (nsubjects s) = Observer_new"
    "received (destination ?t) = received (destination s) @ [OnNext (nsubjects s)]"
    "selectorCalls ?t = Suc (selectorCalls s)"
    unfolding t by simp_all
  from run f1 f2 show ?thesis
    by (intro exI [of _ ?t] conjI)
qed

text \<open>
  C7. \<^verbatim>\<open>notifyNext\<close> and \<^verbatim>\<open>notifyComplete\<close> are the same call, and a value and the completion
  of a closing notifier, delivered to its inner subscriber, lead to the same result at every
  depth of nesting. The completion of a notifier that has pushed no value cuts the window:
  the current window receives its completion, a new window is created, made the current one
  and sent to the destination, and the selector is called once more. It goes on as long as
  the notifiers complete: \<open>n\<close> notifiers that complete later, one after the other, leave
  \<open>n + 1\<close> windows, of which the first \<open>n\<close> have received their completion and nothing
  else, after \<open>n + 1\<close> calls of the selector; \<open>n\<close> notifiers that complete while they are
  being subscribed do the same inside the constructor; and when every notifier completes
  while it is being subscribed, the constructor never returns.
\<close>

theorem WindowWhen_notifier_completion_as_value:
  fixes s :: "('a, 'x, 'e) WindowSubscriber" and selector :: "nat \<Rightarrow> ('x, 'e) selector_result"
  shows "(\<forall>depth. Window_notifyNext depth x i s = Window_notifyComplete depth i s)
       \<and> (i < ninners s \<longrightarrow>
            (\<forall>depth. InnerSubscriber_on (Window_notifyNext depth) Window_notifyError
                        (Window_notifyComplete depth) (OnNext x) i s =
                     InnerSubscriber_on (Window_notifyNext depth) Window_notifyError
                        (Window_notifyComplete depth) OnComplete i s))
       \<and> (\<not> isUnsubscribed s \<and> window s = Some w \<and> w < nsubjects s \<and> \<not> stopped (subjects s w)
            \<and> 0 < ninners s \<and> \<not> innerClosed s (ninners s - 1)
            \<and> closingSelector s (selectorCalls s) = Returns [] \<longrightarrow>
            (\<exists>t. (\<forall>depth. Window_on (Suc depth) (FromNotifier OnComplete) s = Some t)
               \<and> received (subjects t w) = received (subjects s w) @ [OnComplete]
               \<and> nsubjects t = Suc (nsubjects s)
               \<and> window t = Some (nsubjects s)
               \<and> subjects t (nsubjects s) = Observer_new
               \<and> received (destination t) = received (destination s) @ [OnNext (nsubjects s)]
               \<and> selectorCalls t = Suc (selectorCalls s)))
       \<and> ((\<forall>k. selector k = Returns []) \<longrightarrow>
            (\<exists>D. \<exists>t :: ('a, 'x, 'e) WindowSubscriber.
               (\<forall>depth\<ge>D. WindowWhen_run depth selector
                    (replicate n (FromNotifier OnComplete)) = Some t)
               \<and> nsubjects t = n + 1
               \<and> selectorCalls t = n + 1
               \<and> received (destination t) = map OnNext [0..<n + 1]
               \<and> (\<forall>w<n. received (subjects t w) = [OnComplete])
               \<and> received (subjects t n) = []))
       \<and> ((\<forall>k<n. \<exists>ns. selector k = Returns (OnComplete # ns)) \<and> selector n = Returns [] \<longrightarrow>
            (\<exists>t :: ('a, 'x, 'e) WindowSubscriber.
               (\<forall>depth>n. WindowSubscriber_new depth Observer_new selector = Some t)
               \<and> nsubjects t = n + 1
               \<and> selectorCalls t = n + 1
               \<and> received (destination t) = map OnNext [0..<n + 1]
               \<and> (\<forall>w<n. received (subjects t w) = [OnComplete])
               \<and> received (subjects t n) = []))
       \<and> ((\<forall>k. \<exists>ns. selector k = Returns (OnComplete # ns)) \<longrightarrow>
            (\<forall>depth. (WindowSubscriber_new depth Observer_new selector
                        :: ('a, 'x, 'e) WindowSubscriber option) = None))"
proof -
  have same: "\<forall>depth. Window_notifyNext depth x i s = Window_notifyComplete depth i s"
    by (simp add: Window_notifyNext_def Window_notifyComplete_def)
  have inner: "i < ninners s \<longrightarrow>
      (\<forall>depth. InnerSubscriber_on (Window_notifyNext depth) Window_notifyError
                  (Window_notifyComplete depth) (OnNext x) i s =
               InnerSubscriber_on (Window_notifyNext depth) Window_notifyError
                  (Window_notifyComplete depth) OnComplete i s)"
  proof (intro impI allI)
    fix depth
    assume "i < ninners s"
    then show "InnerSubscriber_on (Window_notifyNext depth) Window_notifyError
                  (Window_notifyComplete depth) (OnNext x) i s =
               InnerSubscriber_on (Window_notifyNext depth) Window_notifyError
                  (Window_notifyComplete depth) OnComplete i s"
      by (rule InnerSubscriber_on_value_as_completion)
  qed
  have cut: "\<not> isUnsubscribed s \<and> window s = Some w \<and> w < nsubjects s \<and> \<not> stopped (subjects s w)
      \<and> 0 < ninners s \<and> \<not> innerClosed s (ninners s - 1)
      \<and> closingSelector s (selectorCalls s) = Returns [] \<longrightarrow>
      (\<exists>t. (\<forall>depth. Window_on (Suc depth) (FromNotifier OnComplete) s = Some t)
         \<and> received (subjects t w) = received (subjects s w) @ [OnComplete]
         \<and> nsubjects t = Suc (nsubjects s)
         \<and> window t = Some (nsubjects s)
         \<and> subjects t (nsubjects s) = Observer_new
         \<and> received (destination t) = received (destination s) @ [OnNext (nsubjects s)]
         \<and> selectorCalls t = Suc (selectorCalls s))"
  proof
    assume h: "\<not> isUnsubscribed s \<and> window s = Some w \<and> w < nsubjects s
      \<and> \<not> stopped (subjects s w)
      \<and> 0 < ninners s \<and> \<not> innerClosed s (ninners s - 1)
      \<and> closingSelector s (selectorCalls s) = Returns []"
    then have "\<not> isUnsubscribed s" "window s = Some w" "w < nsubjects s"
      "\<not> stopped (subjects s w)" "0 < ninners s" "\<not> innerClosed s (ninners s - 1)"
      "closingSelector s (selectorCalls s) = Returns []"
      by simp_all
    then show "\<exists>t. (\<forall>depth. Window_on (Suc depth) (FromNotifier OnComplete) s = Some t)
         \<and> received (subjects t w) = received (subjects s w) @ [OnComplete]
         \<and> nsubjects t = Suc (nsubjects s)
         \<and> window t = Some (nsubjects s)
         \<and> subjects t (nsubjects s) = Observer_new
         \<and> received (destination t) = received (destination s) @ [OnNext (nsubjects s)]
         \<and> selectorCalls t = Suc (selectorCalls s)"
      by (rule Window_on_completion_cuts)
  qed
  have later: "(\<forall>k. selector k = Returns []) \<longrightarrow>
      (\<exists>D. \<exists>t :: ('a, 'x, 'e) WindowSubscriber.
         (\<forall>depth\<ge>D. WindowWhen_run depth selector
              (replicate n (FromNotifier OnComplete)) = Some t)
         \<and> nsubjects t = n + 1
         \<and> selectorCalls t = n + 1
         \<and> received (destination t) = map OnNext [0..<n + 1]
         \<and> (\<forall>w<n. received (subjects t w) = [OnComplete])
         \<and> received (subjects t n) = [])"
  proof
    assume sel: "\<forall>k. selector k = Returns []"
    let ?is = "replicate n (FromNotifier OnComplete) :: ('a, 'x, 'e) window_input list"
    have h1: "\<forall>k. fires_on_subscription (selector k) \<or> selector k = Returns []"
      and h2: "\<forall>k. \<exists>j\<ge>k. selector j = Returns []"
      and h3: "\<forall>i\<in>set ?is. lifetime_input i"
      using sel by auto
    from WindowWhen_run_active [OF h1 h2 h3]
    obtain D and t :: "('a, 'x, 'e) WindowSubscriber" where
      run: "\<forall>depth\<ge>D. WindowWhen_run depth selector ?is = Some t"
      and act: "window_active t"
      and con: "all_contents t = window_source_values ?is"
      and ns: "nsubjects t = fires ?is
          + length (filter (\<lambda>k. fires_on_subscription (selector k)) [0..<nsubjects t]) + 1"
      by blast
    have "filter (\<lambda>k. fires_on_subscription (selector k)) [0..<nsubjects t] = []"
      using sel by (simp add: filter_empty_conv)
    with ns have n1: "nsubjects t = n + 1"
      by (simp add: fires_replicate)
    from act n1 have calls: "selectorCalls t = n + 1"
      and rcv: "received (destination t) = map OnNext [0..<n + 1]"
      by (simp_all add: window_active_def)
    from con have "all_contents t = []"
      by (simp add: window_source_values_replicate)
    from window_active_empty_logs [OF act this] n1
    have logs: "\<forall>w<n. received (subjects t w) = [OnComplete]" "received (subjects t n) = []"
      by simp_all
    from run n1 calls rcv logs
    show "\<exists>D. \<exists>t :: ('a, 'x, 'e) WindowSubscriber.
         (\<forall>depth\<ge>D. WindowWhen_run depth selector ?is = Some t)
         \<and> nsubjects t = n + 1
         \<and> selectorCalls t = n + 1
         \<and> received (destination t) = map OnNext [0..<n + 1]
         \<and> (\<forall>w<n. received (subjects t w) = [OnComplete])
         \<and> received (subjects t n) = []"
      by blast
  qed
  have nested: "(\<forall>k<n. \<exists>ns. selector k = Returns (OnComplete # ns)) \<and> selector n = Returns [] \<longrightarrow>
      (\<exists>t :: ('a, 'x, 'e) WindowSubscriber.
         (\<forall>depth>n. WindowSubscriber_new depth Observer_new selector = Some t)
         \<and> nsubjects t = n + 1
         \<and> selectorCalls t = n + 1
         \<and> received (destination t) = map OnNext [0..<n + 1]
         \<and> (\<forall>w<n. received (subjects t w) = [OnComplete])
         \<and> received (subjects t n) = [])"
  proof
    assume sel: "(\<forall>k<n. \<exists>ns. selector k = Returns (OnComplete # ns)) \<and> selector n = Returns []"
    let ?s0 = "Window_initial Observer_new selector :: ('a, 'x, 'e) WindowSubscriber"
    have ready: "window_ready None ?s0"
      by (auto simp add: window_ready_def)
    have chain: "\<forall>j<n. fires_on_subscription (closingSelector ?s0 (nsubjects ?s0 + j))"
      "closingSelector ?s0 (nsubjects ?s0 + n) = Returns []"
      using sel by (auto simp add: Window_initial_fields)
    from Window_openWindow_chain [OF ready chain]
    obtain t where t: "\<forall>depth>n. Window_openWindow depth None ?s0 = Some t" "window_active t"
      "nsubjects t = n + 1" "all_contents t = []"
      by (auto simp add: Window_initial_fields)
    from t(1) have run: "\<forall>depth>n. WindowSubscriber_new depth Observer_new selector = Some t"
      by (simp add: WindowSubscriber_new_initial)
    from t(2,3) have calls: "selectorCalls t = n + 1"
      and rcv: "received (destination t) = map OnNext [0..<n + 1]"
      by (simp_all add: window_active_def)
    from window_active_empty_logs [OF t(2,4)] t(3)
    have logs: "\<forall>w<n. received (subjects t w) = [OnComplete]" "received (subjects t n) = []"
      by simp_all
    from run t(3) calls rcv logs
    show "\<exists>t :: ('a, 'x, 'e) WindowSubscriber.
         (\<forall>depth>n. WindowSubscriber_new depth Observer_new selector = Some t)
         \<and> nsubjects t = n + 1
         \<and> selectorCalls t = n + 1
         \<and> received (destination t) = map OnNext [0..<n + 1]
         \<and> (\<forall>w<n. received (subjects t w) = [OnComplete])
         \<and> received (subjects t n) = []"
      by blast
  qed
  have never: "(\<forall>k. \<exists>ns. selector k = Returns (OnComplete # ns)) \<longrightarrow>
      (\<forall>depth. (WindowSubscriber_new depth Observer_new selector
                  :: ('a, 'x, 'e) WindowSubscriber option) = None)"
  proof (intro impI allI)
    fix depth
    assume sel: "\<forall>k. \<exists>ns. selector k = Returns (OnComplete # ns)"
    let ?s0 = "Window_initial Observer_new selector :: ('a, 'x, 'e) WindowSubscriber"
    have "fires_on_subscription (selector k)" for k
    proof -
      from sel obtain ns where "selector k = Returns (OnComplete # ns)"
        by blast
      then show ?thesis by simp
    qed
    then have "\<forall>k\<ge>selectorCalls ?s0. fires_on_subscription (closingSelector ?s0 k)"
      by (simp add: Window_initial_fields)
    then have "Window_openWindow depth None ?s0 = None"
      by (rule Window_openWindow_never_returns)
    then show "(WindowSubscriber_new depth Observer_new selector
        :: ('a, 'x, 'e) WindowSubscriber option) = None"
      by (simp add: WindowSubscriber_new_initial)
  qed
  from same inner cut later nested never show ?thesis
    by (intro conjI)
qed

theorem WindowWhen_notifier_completion_as_value_witness:
  "InnerSubscriber_on (Window_notifyNext 2) Window_notifyError (Window_notifyComplete 2)
       (OnNext ()) 0
       (Window_subscribing None
          (Window_initial Observer_new (\<lambda>k. Returns []) :: (int, unit, string) WindowSubscriber)) =
     InnerSubscriber_on (Window_notifyNext 2) Window_notifyError (Window_notifyComplete 2)
       OnComplete 0
       (Window_subscribing None
          (Window_initial Observer_new (\<lambda>k. Returns []) :: (int, unit, string) WindowSubscriber))
   \<and> (\<exists>D. \<exists>t :: (int, unit, string) WindowSubscriber.
         (\<forall>depth\<ge>D. WindowWhen_run depth (\<lambda>k. Returns [])
              (replicate 2 (FromNotifier OnComplete)) = Some t)
         \<and> nsubjects t = 3
         \<and> selectorCalls t = 3
         \<and> (\<forall>w<2. received (subjects t w) = [OnComplete]))
   \<and> (WindowSubscriber_new 9 Observer_new (\<lambda>k. Returns [OnComplete])
         :: (int, unit, string) WindowSubscriber option) = None"
proof -
  let ?s = "Window_subscribing None
      (Window_initial Observer_new (\<lambda>k. Returns []) :: (int, unit, string) WindowSubscriber)"
  have 1: "0 < ninners ?s"
    by (simp add: Window_subscribing_inners)
  have 2: "\<forall>k::nat. (\<lambda>k. Returns [] :: (unit, string) selector_result) k = Returns []"
    by simp
  have 3: "\<forall>k::nat. \<exists>ns. (\<lambda>k. Returns [OnComplete] :: (unit, string) selector_result) k
      = Returns (OnComplete # ns)"
    by simp
  note later = WindowWhen_notifier_completion_as_value
    [where s = ?s and i = 0 and x = "()" and w = 0 and n = 2
      and selector = "\<lambda>k. Returns [] :: (unit, string) selector_result"]
  note never = WindowWhen_notifier_completion_as_value
    [where s = ?s and i = 0 and x = "()" and w = 0 and n = 2
      and selector = "\<lambda>k. Returns [OnComplete] :: (unit, string) selector_result"]
  from later 1 have a: "InnerSubscriber_on (Window_notifyNext 2) Window_notifyError
      (Window_notifyComplete 2) (OnNext ()) 0 ?s =
    InnerSubscriber_on (Window_notifyNext 2) Window_notifyError
      (Window_notifyComplete 2) OnComplete 0 ?s"
    by blast
  from later 2 obtain D and t :: "(int, unit, string) WindowSubscriber" where
    t: "\<forall>depth\<ge>D. WindowWhen_run depth (\<lambda>k. Returns [])
          (replicate 2 (FromNotifier OnComplete)) = Some t"
      "nsubjects t = 2 + 1" "selectorCalls t = 2 + 1"
      "\<forall>w<2. received (subjects t w) = [OnComplete]"
    by blast
  then have b: "\<exists>D. \<exists>t :: (int, unit, string) WindowSubscriber.
         (\<forall>depth\<ge>D. WindowWhen_run depth (\<lambda>k. Returns [])
              (replicate 2 (FromNotifier OnComplete)) = Some t)
         \<and> nsubjects t = 3
         \<and> selectorCalls t = 3
         \<and> (\<forall>w<2. received (subjects t w) = [OnComplete])"
    by (intro exI [of _ D] exI [of _ t]) simp
  from never 3 have c: "(WindowSubscriber_new 9 Observer_new (\<lambda>k. Returns [OnComplete])
         :: (int, unit, string) WindowSubscriber option) = None"
    by blast
  from a b c show ?thesis
    by (intro conjI)
qed

end
